theory Spec2Isabelle
  imports Complex_Main
begin

section \<open>Numbers, errors and dictionaries\<close>

text \<open>
  The programs are Python. Python floats are modelled by exact rationals, and the
  float value NaN that the metric functions return is modelled by \<open>None\<close>.
  Exceptions are values of the type \<open>error\<close>.
  The tallies of \<open>aggregate_votes_by_district\<close> are also modelled with the rounding of
  float addition, in the section on the tallies in float arithmetic.
\<close>

datatype error =
    KeyError | TypeError | ValueError | ZeroDivisionError | StopIteration
  | AttributeError | JSONDecodeError | NetworkXPointlessConcept

text \<open>
  \<open>defaultdict(float)\<close>, keyed by district: an association list in insertion order.
  Reading a missing key gives \<open>0.0\<close>; \<open>d[k] += v\<close> updates in place or appends.
\<close>

type_synonym tally = "(int \<times> rat) list"

definition dd_get :: "tally \<Rightarrow> int \<Rightarrow> rat" where
  "dd_get d k = (case map_of d k of None \<Rightarrow> 0 | Some v \<Rightarrow> v)"

fun dd_add :: "tally \<Rightarrow> int \<Rightarrow> rat \<Rightarrow> tally" where
  "dd_add [] k v = [(k, 0 + v)]"
| "dd_add ((k', x) # d) k v =
     (if k' = k then (k', x + v) # d else (k', x) # dd_add d k v)"

section \<open>helpers/analyze\_ensemble\_2024.py: the metric functions\<close>

subsection \<open>compute\_efficiency\_gap\<close>

text \<open>
  The loop of \<open>compute_efficiency_gap\<close> over \<open>dem_by_dist.keys()\<close>; the accumulator is
  \<open>(wasted_dem_total, wasted_rep_total, total_two_party)\<close>.
\<close>

fun eg_loop :: "tally \<Rightarrow> tally \<Rightarrow> int list \<Rightarrow> rat \<times> rat \<times> rat \<Rightarrow> rat \<times> rat \<times> rat" where
  "eg_loop D R [] acc = acc"
| "eg_loop D R (di # ds) (wasted_dem_total, wasted_rep_total, total_two_party) =
     (let dem = dd_get D di; rep = dd_get R di; total = dem + rep in
      if total \<le> 0 then eg_loop D R ds (wasted_dem_total, wasted_rep_total, total_two_party)
      else
        let threshold = of_int \<lfloor>total / 2\<rfloor> + 1;
            (dem_wasted, rep_wasted) =
              (if dem > rep then (dem - threshold, rep)
               else if rep > dem then (dem, rep - threshold)
               else (dem / 2, rep / 2))
        in eg_loop D R ds
             (wasted_dem_total + max dem_wasted 0,
              wasted_rep_total + max rep_wasted 0,
              total_two_party + total))"

definition compute_efficiency_gap :: "tally \<Rightarrow> tally \<Rightarrow> rat option" where
  "compute_efficiency_gap D R =
     (case eg_loop D R (map fst D) (0, 0, 0) of
        (wasted_dem_total, wasted_rep_total, total_two_party) \<Rightarrow>
          if total_two_party = 0 then None
          else Some ((wasted_dem_total - wasted_rep_total) / total_two_party))"

subsection \<open>compute\_partisan\_bias\<close>

fun pb_loop :: "tally \<Rightarrow> tally \<Rightarrow> int list \<Rightarrow> rat list \<times> rat \<times> rat \<Rightarrow> rat list \<times> rat \<times> rat" where
  "pb_loop D R [] acc = acc"
| "pb_loop D R (di # ds) (shares, total_dem, total_rep) =
     (let dem = dd_get D di; rep = dd_get R di; total = dem + rep in
      if total \<le> 0 then pb_loop D R ds (shares, total_dem, total_rep)
      else pb_loop D R ds (shares @ [dem / total], total_dem + dem, total_rep + rep))"

definition compute_partisan_bias :: "tally \<Rightarrow> tally \<Rightarrow> rat option" where
  "compute_partisan_bias D R =
     (case pb_loop D R (map fst D) ([], 0, 0) of
        (shares, total_dem, total_rep) \<Rightarrow>
          if shares = [] \<or> total_dem + total_rep = 0 then None
          else
            let statewide_dem_share = total_dem / (total_dem + total_rep);
                shift = 1 / 2 - statewide_dem_share;
                swung_shares = map (\<lambda>s. min (max (s + shift) 0) 1) shares;
                num_dists = length swung_shares;
                dem_seats_at_50 = length (filter (\<lambda>s. s > 1 / 2) swung_shares)
            in Some (of_nat dem_seats_at_50 / of_nat num_dists - 1 / 2))"

subsection \<open>The efficiency gap as the specification words it\<close>

text \<open>
  The per-district tallies a metric function sees: for every key of \<open>dem_by_dist\<close>,
  the pair of the two parties' totals.
\<close>

definition district_pairs :: "tally \<Rightarrow> tally \<Rightarrow> (rat \<times> rat) list" where
  "district_pairs D R = map (\<lambda>k. (dd_get D k, dd_get R k)) (map fst D)"

definition qualifying :: "(rat \<times> rat) list \<Rightarrow> (rat \<times> rat) list" where
  "qualifying ps = filter (\<lambda>(a, b). a + b > 0) ps"






section \<open>Graphs and node attributes\<close>

text \<open>
  A node attribute as the two programs use it: a number (\<open>int\<close> or \<open>float\<close>), \<open>None\<close>,
  or a value that \<open>float()\<close> rejects with \<open>TypeError\<close> or \<open>ValueError\<close>
  (a non-numeric string, a list).
\<close>

datatype pyval = PNum rat | PNone | PBad

text \<open>
  The precinct graph: \<open>graph.nodes\<close> with one attribute dictionary per node identifier,
  and the undirected edges.
\<close>

record graph =
  node_attrs :: "(int \<times> (string \<times> pyval) list) list"
  edge_list :: "(int \<times> int) list"

section \<open>helpers/analyze\_ensemble\_2024.py: tallies and seats\<close>

definition DEM_COL :: string where "DEM_COL = ''PREDEM24''"
definition REP_COL :: string where "REP_COL = ''PREREP24''"

text \<open>
  Lines 40 to 49 of \<open>aggregate_votes_by_district\<close>: \<open>attr.get(key, 0.0) or 0.0\<close>, then
  \<open>float()\<close> with \<open>0.0\<close> on \<open>TypeError\<close> or \<open>ValueError\<close>.
\<close>

definition attr_float :: "(string \<times> pyval) list \<Rightarrow> string \<Rightarrow> rat" where
  "attr_float attr key =
     (case map_of attr key of
        None \<Rightarrow> 0
      | Some PNone \<Rightarrow> 0
      | Some PBad \<Rightarrow> 0
      | Some (PNum r) \<Rightarrow> r)"

text \<open>
  The loop over \<open>assignment.items()\<close>; the accumulator is
  \<open>(dem_by_dist, rep_by_dist, two_party_by_dist)\<close>. A node the graph does not have is skipped.
  The additions are exact here; \<open>aggregate_loop_float\<close> below is the same loop with
  float additions, and gives the same tallies on whole votes below \<open>2^53\<close>.
\<close>

fun aggregate_loop ::
  "graph \<Rightarrow> string \<Rightarrow> string \<Rightarrow> (int \<times> int) list \<Rightarrow> tally \<times> tally \<times> tally \<Rightarrow> tally \<times> tally \<times> tally"
where
  "aggregate_loop g dem_key rep_key [] acc = acc"
| "aggregate_loop g dem_key rep_key ((node_id, di) # items)
     (dem_by_dist, rep_by_dist, two_party_by_dist) =
     (case map_of (node_attrs g) node_id of
        None \<Rightarrow>
          aggregate_loop g dem_key rep_key items (dem_by_dist, rep_by_dist, two_party_by_dist)
      | Some attr \<Rightarrow>
          let dem = attr_float attr dem_key;
              rep = attr_float attr rep_key;
              two = dem + rep
          in aggregate_loop g dem_key rep_key items
               (dd_add dem_by_dist di dem, dd_add rep_by_dist di rep,
                dd_add two_party_by_dist di two))"

definition aggregate_votes_by_district ::
  "graph \<Rightarrow> (int \<times> int) list \<Rightarrow> string \<Rightarrow> string \<Rightarrow> tally \<times> tally \<times> tally" where
  "aggregate_votes_by_district g assignment dem_key rep_key =
     aggregate_loop g dem_key rep_key assignment ([], [], [])"


text \<open>
  The seat loop of the analyzer's \<open>main\<close> (lines 205 to 216); the accumulator is
  \<open>(dem_seats, gop_seats, ties)\<close>.
\<close>

fun seat_loop :: "tally \<Rightarrow> tally \<Rightarrow> int list \<Rightarrow> int \<times> int \<times> int \<Rightarrow> int \<times> int \<times> int" where
  "seat_loop D R [] acc = acc"
| "seat_loop D R (di # ds) (dem_seats, gop_seats, ties) =
     (let dem = dd_get D di; rep = dd_get R di in
      if dem > rep then seat_loop D R ds (dem_seats + 1, gop_seats, ties)
      else if rep > dem then seat_loop D R ds (dem_seats, gop_seats + 1, ties)
      else seat_loop D R ds (dem_seats, gop_seats, ties + 1))"



section \<open>voting\_district\_metrics.py: field detection, partitions and seats\<close>




text \<open>
  A GerryChain partition: the graph and the assignment of nodes to district labels.
\<close>

record partition =
  pgraph :: graph
  assignment :: "(int \<times> int) list"

text \<open>
  Modelled from the spec: GerryChain's \<open>Partition.parts\<close> is library code, not part of the
  repository. The specification's data model derives the district identifiers from the
  assignment's value set; each district has its member nodes.
\<close>

definition parts :: "partition \<Rightarrow> (int \<times> int list) list" where
  "parts p =
     map (\<lambda>d. (d, map fst (filter (\<lambda>(n, d'). d' = d) (assignment p))))
       (remdups (map snd (assignment p)))"

text \<open>\<open>graph.nodes[n][key]\<close> read as a number.\<close>

definition node_number :: "graph \<Rightarrow> string \<Rightarrow> int \<Rightarrow> error + rat" where
  "node_number g key n =
     (case map_of (node_attrs g) n of
        None \<Rightarrow> Inl KeyError
      | Some attr \<Rightarrow>
          (case map_of attr key of
             None \<Rightarrow> Inl KeyError
           | Some (PNum r) \<Rightarrow> Inr r
           | Some _ \<Rightarrow> Inl TypeError))"

text \<open>Evaluating a list left to right, stopping at the first exception.\<close>

fun collect :: "(error + 'a) list \<Rightarrow> error + 'a list" where
  "collect [] = Inr []"
| "collect (Inl e # xs) = Inl e"
| "collect (Inr x # xs) = (case collect xs of Inl e \<Rightarrow> Inl e | Inr ys \<Rightarrow> Inr (x # ys))"

text \<open>
  Modelled from the spec: GerryChain's \<open>Tally\<close> updater is library code, not part of the
  repository. The specification's DistrictTally is, for a district identifier, the
  attribute summed over the district's member nodes.
\<close>

definition Tally :: "string \<Rightarrow> partition \<Rightarrow> error + tally" where
  "Tally key p =
     collect (map (\<lambda>(d, ns).
        case collect (map (node_number (pgraph p) key) ns) of
          Inl e \<Rightarrow> Inl e
        | Inr vs \<Rightarrow> Inr (d, sum_list vs)) (parts p))"

text \<open>
  \<open>seats_gop_by_tally\<close>, with the globals \<open>DEM_KEY\<close> and \<open>REP_KEY\<close> as arguments:
  \<open>sum(int(R[d] > D[d]) for d in partition.parts)\<close>.
\<close>

definition seats_gop_by_tally :: "string \<Rightarrow> string \<Rightarrow> partition \<Rightarrow> error + int" where
  "seats_gop_by_tally DEM_KEY REP_KEY p =
     (case Tally DEM_KEY p of
        Inl e \<Rightarrow> Inl e
      | Inr D \<Rightarrow>
          (case Tally REP_KEY p of
             Inl e \<Rightarrow> Inl e
           | Inr R \<Rightarrow>
               (case collect (map (\<lambda>d.
                        case (map_of R d, map_of D d) of
                          (Some r, Some dm) \<Rightarrow> Inr (if r > dm then 1 else 0)
                        | _ \<Rightarrow> Inl KeyError) (map fst (parts p))) of
                  Inl e \<Rightarrow> Inl e
                | Inr wins \<Rightarrow> Inr (sum_list wins))))"

subsection \<open>Auxiliary notions for the tallies\<close>





section \<open>helpers/analyze\_ensemble\_2024.py: the tallies in float arithmetic\<close>

text \<open>
  Python's \<open>float\<close> is the IEEE double. A finite double is a rational; the sum of two
  doubles is the exact sum rounded to the nearest double, ties to the even significand,
  and \<open>float(x)\<close> rounds a number the same way. The significand has 53 bits. The
  exponent range is not bounded here: overflow to infinity, subnormal numbers and NaN
  are outside this model.
\<close>

definition round_half_even :: "rat \<Rightarrow> int" where
  "round_half_even x =
     (let f = \<lfloor>x\<rfloor>; d = x - of_int f in
      if d < 1 / 2 then f else if 1 / 2 < d then f + 1 else if even f then f else f + 1)"

text \<open>How often a number from 2 on can be halved before it is below 2.\<close>

function halvings :: "rat \<Rightarrow> nat" where
  "halvings x = (if 2 \<le> x then Suc (halvings (x / 2)) else 0)"
  by pat_completeness auto
termination
proof (relation "measure (\<lambda>x. nat \<lfloor>x\<rfloor>)")
  show "wf (measure (\<lambda>x::rat. nat \<lfloor>x\<rfloor>))" by simp
next
  fix x :: rat
  assume x: "2 \<le> x"
  have "x / 2 \<le> x - 1" using x by simp
  then have "\<lfloor>x / 2\<rfloor> \<le> \<lfloor>x - 1\<rfloor>" by (rule floor_mono)
  then have "\<lfloor>x / 2\<rfloor> < \<lfloor>x\<rfloor>" by simp
  moreover have "0 < \<lfloor>x\<rfloor>" using x by simp
  ultimately show "(x / 2, x) \<in> measure (\<lambda>x. nat \<lfloor>x\<rfloor>)" by simp
qed

declare halvings.simps [simp del]

text \<open>How often a positive number below 1 must be doubled to reach 1.\<close>

function doublings :: "rat \<Rightarrow> nat" where
  "doublings x = (if 0 < x \<and> x < 1 then Suc (doublings (x * 2)) else 0)"
  by pat_completeness auto
termination
proof (relation "measure (\<lambda>x. nat \<lceil>1 / x\<rceil>)")
  show "wf (measure (\<lambda>x::rat. nat \<lceil>1 / x\<rceil>))" by simp
next
  fix x :: rat
  assume x: "0 < x \<and> x < 1"
  define y where "y = 1 / x"
  have y: "1 < y" using x by (simp add: y_def)
  have c: "2 \<le> \<lceil>y\<rceil>" using y by (simp add: le_ceiling_iff)
  have "y / 2 \<le> of_int \<lceil>y\<rceil> / 2" by (simp add: le_of_int_ceiling)
  also have "\<dots> \<le> of_int (\<lceil>y\<rceil> - 1)" using c by simp
  finally have "\<lceil>y / 2\<rceil> \<le> \<lceil>y\<rceil> - 1" by (simp only: ceiling_le_iff)
  then have "\<lceil>1 / (x * 2)\<rceil> < \<lceil>1 / x\<rceil>" by (simp add: y_def divide_simps mult.commute)
  moreover have "0 < \<lceil>1 / x\<rceil>" using c unfolding y_def by linarith
  ultimately show "(x * 2, x) \<in> measure (\<lambda>x. nat \<lceil>1 / x\<rceil>)" by simp
qed

declare doublings.simps [simp del]

text \<open>The binary exponent of a positive number: the \<open>e\<close> with \<open>2^e \<le> x < 2^(e+1)\<close>.\<close>

definition binary_exponent :: "rat \<Rightarrow> int" where
  "binary_exponent x = (if 1 \<le> x then int (halvings x) else - int (doublings x))"

definition pow2 :: "int \<Rightarrow> rat" where
  "pow2 e = (if 0 \<le> e then 2 ^ nat e else 1 / 2 ^ nat (- e))"

definition round_double :: "rat \<Rightarrow> rat" where
  "round_double x =
     (if x = 0 then 0
      else
        let ulp = pow2 (binary_exponent \<bar>x\<bar> - 52)
        in sgn x * of_int (round_half_even (\<bar>x\<bar> / ulp)) * ulp)"

text \<open>Float addition, and the built-in \<open>sum\<close> over floats (from the left, starting at 0).\<close>

definition fadd :: "rat \<Rightarrow> rat \<Rightarrow> rat" where
  "fadd a b = round_double (a + b)"

definition fsum :: "rat list \<Rightarrow> rat" where
  "fsum xs = foldl fadd 0 xs"

text \<open>\<open>d[k] += v\<close> on a \<open>defaultdict(float)\<close>, the addition being float addition.\<close>

fun dd_add_float :: "tally \<Rightarrow> int \<Rightarrow> rat \<Rightarrow> tally" where
  "dd_add_float [] k v = [(k, fadd 0 v)]"
| "dd_add_float ((k', x) # d) k v =
     (if k' = k then (k', fadd x v) # d else (k', x) # dd_add_float d k v)"

text \<open>
  Lines 40 to 49 with the conversion \<open>float()\<close> rounding its argument to a double.
\<close>

definition attr_float_rounded :: "(string \<times> pyval) list \<Rightarrow> string \<Rightarrow> rat" where
  "attr_float_rounded attr key =
     (case map_of attr key of
        None \<Rightarrow> 0
      | Some PNone \<Rightarrow> 0
      | Some PBad \<Rightarrow> 0
      | Some (PNum r) \<Rightarrow> round_double r)"

text \<open>
  \<open>aggregate_votes_by_district\<close> as the interpreter runs it: the loop over
  \<open>assignment.items()\<close> with every addition of lines 50 to 53 a float addition.
  The definitions \<open>aggregate_loop\<close> and \<open>aggregate_votes_by_district\<close> above are this
  function in exact arithmetic; the two agree on whole votes below \<open>2^53\<close>.
\<close>

fun aggregate_loop_float ::
  "graph \<Rightarrow> string \<Rightarrow> string \<Rightarrow> (int \<times> int) list \<Rightarrow> tally \<times> tally \<times> tally \<Rightarrow> tally \<times> tally \<times> tally"
where
  "aggregate_loop_float g dem_key rep_key [] acc = acc"
| "aggregate_loop_float g dem_key rep_key ((node_id, di) # items)
     (dem_by_dist, rep_by_dist, two_party_by_dist) =
     (case map_of (node_attrs g) node_id of
        None \<Rightarrow>
          aggregate_loop_float g dem_key rep_key items
            (dem_by_dist, rep_by_dist, two_party_by_dist)
      | Some attr \<Rightarrow>
          let dem = attr_float_rounded attr dem_key;
              rep = attr_float_rounded attr rep_key;
              two = fadd dem rep
          in aggregate_loop_float g dem_key rep_key items
               (dd_add_float dem_by_dist di dem, dd_add_float rep_by_dist di rep,
                dd_add_float two_party_by_dist di two))"

definition aggregate_votes_by_district_float ::
  "graph \<Rightarrow> (int \<times> int) list \<Rightarrow> string \<Rightarrow> string \<Rightarrow> tally \<times> tally \<times> tally" where
  "aggregate_votes_by_district_float g asg dem_key rep_key =
     aggregate_loop_float g dem_key rep_key asg ([], [], [])"

subsection \<open>Exact aggregation as the specification words it\<close>

text \<open>
  The attribute of a node as the data model has it: a number, with a missing or
  non-numeric value counting as zero; and the same attribute as the float the program
  holds.
\<close>

definition attribute_number :: "graph \<Rightarrow> string \<Rightarrow> int \<Rightarrow> rat" where
  "attribute_number g key n =
     (case map_of (node_attrs g) n of
        None \<Rightarrow> 0
      | Some attrs \<Rightarrow> (case map_of attrs key of Some (PNum r) \<Rightarrow> r | _ \<Rightarrow> 0))"

definition attribute_as_float :: "graph \<Rightarrow> string \<Rightarrow> int \<Rightarrow> rat" where
  "attribute_as_float g key n = round_double (attribute_number g key n)"

text \<open>\<open>sum(tally over districts)\<close> and \<open>sum(attribute over all assigned nodes)\<close>.\<close>

definition sum_over_districts :: "tally \<Rightarrow> rat" where
  "sum_over_districts tallies = fsum (map snd tallies)"

definition sum_over_nodes :: "graph \<Rightarrow> string \<Rightarrow> (int \<times> int) list \<Rightarrow> rat" where
  "sum_over_nodes g key asg = fsum (map (\<lambda>(n, d). attribute_as_float g key n) asg)"

text \<open>
  A column of whole votes: the attribute of every assigned node is a whole number, not
  negative, and the attributes of the assigned nodes add up to less than \<open>2^53\<close>.
\<close>

definition whole_number :: "rat \<Rightarrow> bool" where
  "whole_number x = (0 \<le> x \<and> x = of_int \<lfloor>x\<rfloor>)"

definition whole_column :: "graph \<Rightarrow> string \<Rightarrow> (int \<times> int) list \<Rightarrow> bool" where
  "whole_column g key asg =
     (list_all (\<lambda>(n, d). whole_number (attribute_number g key n)) asg \<and>
      sum_list (map (\<lambda>(n, d). attribute_number g key n) asg) < 2 ^ 53)"

text \<open>A graph with fractional votes, and an assignment of its three nodes to two districts.\<close>

definition fractional_graph :: graph where
  "fractional_graph =
     \<lparr>node_attrs =
        [(1, [(''PREDEM24'', PNum (1 / 10)), (''PREREP24'', PNum 1)]),
         (2, [(''PREDEM24'', PNum (2 / 10)), (''PREREP24'', PNum 1)]),
         (3, [(''PREDEM24'', PNum (3 / 10)), (''PREREP24'', PNum 1)])],
      edge_list = [(1, 2), (2, 3)]\<rparr>"

definition fractional_plan :: "(int \<times> int) list" where
  "fractional_plan = [(1, 2), (2, 1), (3, 1)]"


section \<open>voting\_district\_metrics.py: is\_partition\_contiguous\<close>

text \<open>
  The NetworkX operations the function calls. \<open>G.subgraph(nodes)\<close> is the subgraph induced
  by those of the given nodes that the graph has; \<open>number_of_nodes\<close> counts nodes;
  \<open>nx.is_connected\<close> raises on the graph without nodes and otherwise searches breadth-first
  from one node and compares the number of nodes reached with the number of nodes.
\<close>

definition node_list :: "graph \<Rightarrow> int list" where
  "node_list G = map fst (node_attrs G)"

definition number_of_nodes :: "graph \<Rightarrow> nat" where
  "number_of_nodes G = length (node_attrs G)"

definition subgraph :: "graph \<Rightarrow> int list \<Rightarrow> graph" where
  "subgraph G nodes =
     (let kept = filter (\<lambda>(n, a). n \<in> set nodes) (node_attrs G) in
      \<lparr>node_attrs = kept,
       edge_list = filter (\<lambda>(a, b). a \<in> fst ` set kept \<and> b \<in> fst ` set kept) (edge_list G)\<rparr>)"

text \<open>The adjacency of a node in the undirected graph.\<close>

definition neighbors :: "graph \<Rightarrow> int \<Rightarrow> int list" where
  "neighbors G v =
     concat (map (\<lambda>(a, b). (if a = v then [b] else []) @ (if b = v then [a] else []))
                 (edge_list G))"

text \<open>
  Breadth-first search, one level per round: \<open>seen\<close> are the nodes reached so far,
  \<open>nextlevel\<close> those reached in the last round. The first argument bounds the number of
  rounds; the number of nodes is enough, as every round but the last reaches a new node.
\<close>

fun plain_bfs :: "graph \<Rightarrow> nat \<Rightarrow> int list \<Rightarrow> int list \<Rightarrow> int list" where
  "plain_bfs G 0 seen nextlevel = seen"
| "plain_bfs G (Suc fuel) seen nextlevel =
     (if nextlevel = [] then seen
      else
        let found = remdups (filter (\<lambda>w. w \<notin> set seen) (concat (map (neighbors G) nextlevel)))
        in plain_bfs G fuel (seen @ found) found)"

definition is_connected :: "graph \<Rightarrow> error + bool" where
  "is_connected G =
     (case node_attrs G of
        [] \<Rightarrow> Inl NetworkXPointlessConcept
      | (s, a) # rest \<Rightarrow>
          Inr (length (plain_bfs G (number_of_nodes G) [s] [s]) = number_of_nodes G))"

text \<open>
  The loop of \<open>is_partition_contiguous\<close> over \<open>partition.parts.values()\<close>, leaving with
  \<open>False\<close> at the first district whose subgraph is empty or not connected.
\<close>

fun contiguous_loop :: "graph \<Rightarrow> int list list \<Rightarrow> error + bool" where
  "contiguous_loop G [] = Inr True"
| "contiguous_loop G (nodes # rest) =
     (let sub = subgraph G nodes in
      if number_of_nodes sub = 0 then Inr False
      else
        (case is_connected sub of
           Inl e \<Rightarrow> Inl e
         | Inr conn \<Rightarrow> if \<not> conn then Inr False else contiguous_loop G rest))"

definition is_partition_contiguous :: "partition \<Rightarrow> error + bool" where
  "is_partition_contiguous p = contiguous_loop (pgraph p) (map snd (parts p))"

subsection \<open>Contiguity as the specification words it\<close>

text \<open>The symmetric adjacency relation of a graph.\<close>

definition edge_rel :: "graph \<Rightarrow> (int \<times> int) set" where
  "edge_rel G = {(a, b). (a, b) \<in> set (edge_list G) \<or> (b, a) \<in> set (edge_list G)}"

text \<open>The members of a district: the nodes of the graph among the nodes assigned to it.\<close>

definition members :: "graph \<Rightarrow> int list \<Rightarrow> int set" where
  "members G ns = set ns \<inter> set (node_list G)"

text \<open>
  A member set forms a single connected component of the induced subgraph: no member is
  unreachable from any other by edges both of whose ends are members.
\<close>

definition single_component :: "graph \<Rightarrow> int set \<Rightarrow> bool" where
  "single_component G V = (\<forall>u \<in> V. \<forall>v \<in> V. (u, v) \<in> (edge_rel G \<inter> V \<times> V)\<^sup>*)"

definition district_passes :: "graph \<Rightarrow> int list \<Rightarrow> bool" where
  "district_passes G ns = (members G ns \<noteq> {} \<and> single_component G (members G ns))"

definition spec_contiguous :: "partition \<Rightarrow> bool" where
  "spec_contiguous p = (\<forall>(d, ns) \<in> set (parts p). district_passes (pgraph p) ns)"

text \<open>A graph whose node identifiers are pairwise different, as the keys of a dictionary are.\<close>

definition distinct_nodes :: "graph \<Rightarrow> bool" where
  "distinct_nodes G = distinct (node_list G)"

text \<open>
  The specification's four-node path graph (edges 1-2, 2-3, 3-4) with its vote attributes
  (and a population and a starting plan, which the sampler needs), and two plans on it.
\<close>

definition path_graph :: graph where
  "path_graph =
     \<lparr>node_attrs =
        [(1, [(''TOT_POP'', PNum 15), (''PREDEM24'', PNum 10), (''PREREP24'', PNum 5),
              (''CONG_DIST'', PNum 1)]),
         (2, [(''TOT_POP'', PNum 15), (''PREDEM24'', PNum 5), (''PREREP24'', PNum 10),
              (''CONG_DIST'', PNum 1)]),
         (3, [(''TOT_POP'', PNum 15), (''PREDEM24'', PNum 10), (''PREREP24'', PNum 5),
              (''CONG_DIST'', PNum 2)]),
         (4, [(''TOT_POP'', PNum 15), (''PREDEM24'', PNum 5), (''PREREP24'', PNum 10),
              (''CONG_DIST'', PNum 2)])],
      edge_list = [(1, 2), (2, 3), (3, 4)]\<rparr>"

definition contiguous_plan :: partition where
  "contiguous_plan = \<lparr>pgraph = path_graph, assignment = [(1, 1), (2, 1), (3, 2), (4, 2)]\<rparr>"

definition split_plan :: partition where
  "split_plan = \<lparr>pgraph = path_graph, assignment = [(1, 1), (2, 2), (3, 2), (4, 1)]\<rparr>"


section \<open>JSON values and their text\<close>

text \<open>
  The values \<open>json.dump\<close> writes and \<open>json.loads\<close> reads. A float is kept as the text
  Python prints for it (\<open>0.02\<close>, \<open>NaN\<close>): neither program computes with the floats of a
  plan record. Python's \<open>None\<close> is \<open>JNull\<close>.
\<close>

datatype json =
    JNull | JBool bool | JInt int | JFloat string | JStr string
  | JArr "json list" | JObj "(string \<times> json) list"

definition LF :: char where "LF = CHR 0x0A"
definition dquote :: char where "dquote = CHR 0x22"
definition backslash :: char where "backslash = CHR 0x5C"

subsection \<open>str and int on integers\<close>

definition digit_char :: "nat \<Rightarrow> char" where
  "digit_char d = ''0123456789'' ! d"

fun nat_digits :: "nat \<Rightarrow> string" where
  "nat_digits n =
     (if n < 10 then [digit_char n] else nat_digits (n div 10) @ [digit_char (n mod 10)])"

declare nat_digits.simps [simp del]

definition str_int :: "int \<Rightarrow> string" where
  "str_int i = (if i < 0 then CHR ''-'' # nat_digits (nat (- i)) else nat_digits (nat i))"

text \<open>The code of a character.\<close>

definition ord :: "char \<Rightarrow> nat" where
  "ord c = of_char c"

definition digit_val :: "char \<Rightarrow> nat option" where
  "digit_val c = (if 48 \<le> ord c \<and> ord c \<le> 57 then Some (ord c - 48) else None)"

fun digits_val :: "nat \<Rightarrow> string \<Rightarrow> nat option" where
  "digits_val acc [] = Some acc"
| "digits_val acc (c # cs) =
     (case digit_val c of None \<Rightarrow> None | Some d \<Rightarrow> digits_val (10 * acc + d) cs)"

text \<open>A non-empty run of decimal digits as a number.\<close>

definition nat_of_digits :: "string \<Rightarrow> nat option" where
  "nat_of_digits s = (if s = [] then None else digits_val 0 s)"

text \<open>The characters \<open>str.strip()\<close> removes (ASCII).\<close>

definition is_space :: "char \<Rightarrow> bool" where
  "is_space c = (c = CHR '' '' \<or> (9 \<le> ord c \<and> ord c \<le> 13) \<or> (28 \<le> ord c \<and> ord c \<le> 31))"

definition strip :: "string \<Rightarrow> string" where
  "strip s = rev (dropWhile is_space (rev (dropWhile is_space s)))"

text \<open>
  \<open>int(s)\<close> on a string: surrounding whitespace, an optional sign, decimal digits;
  \<open>ValueError\<close> otherwise. (Underscores between digits are not modelled.)
\<close>

definition int_of_str :: "string \<Rightarrow> error + int" where
  "int_of_str s =
     (case strip s of
        [] \<Rightarrow> Inl ValueError
      | c # cs \<Rightarrow>
          if c = CHR ''-'' then
            (case nat_of_digits cs of None \<Rightarrow> Inl ValueError | Some n \<Rightarrow> Inr (- int n))
          else if c = CHR ''+'' then
            (case nat_of_digits cs of None \<Rightarrow> Inl ValueError | Some n \<Rightarrow> Inr (int n))
          else
            (case nat_of_digits (c # cs) of None \<Rightarrow> Inl ValueError | Some n \<Rightarrow> Inr (int n)))"

subsection \<open>json.dump with indent=2 and ensure\_ascii=False\<close>

definition hex_char :: "nat \<Rightarrow> char" where
  "hex_char d = ''0123456789abcdef'' ! d"

text \<open>
  The encoder's escapes: the quote, the backslash and the control characters; every other
  character is written as it is.
\<close>

definition escape_char :: "char \<Rightarrow> string" where
  "escape_char c =
     (if c = dquote then [backslash, dquote]
      else if c = backslash then [backslash, backslash]
      else if c = CHR 0x0A then [backslash, CHR ''n'']
      else if c = CHR 0x0D then [backslash, CHR ''r'']
      else if c = CHR 0x09 then [backslash, CHR ''t'']
      else if c = CHR 0x08 then [backslash, CHR ''b'']
      else if c = CHR 0x0C then [backslash, CHR ''f'']
      else if ord c < 32 then
        [backslash, CHR ''u'', CHR ''0'', CHR ''0'', hex_char (ord c div 16), hex_char (ord c mod 16)]
      else [c])"

definition json_string :: "string \<Rightarrow> string" where
  "json_string s = dquote # concat (map escape_char s) @ [dquote]"

text \<open>A line break followed by the indentation of a nesting level.\<close>

definition newline_indent :: "nat \<Rightarrow> string" where
  "newline_indent level = LF # replicate (2 * level) CHR '' ''"

fun dumps :: "nat \<Rightarrow> json \<Rightarrow> string"
  and dumps_elems :: "nat \<Rightarrow> json list \<Rightarrow> string"
  and dumps_members :: "nat \<Rightarrow> (string \<times> json) list \<Rightarrow> string"
where
  "dumps level JNull = ''null''"
| "dumps level (JBool b) = (if b then ''true'' else ''false'')"
| "dumps level (JInt i) = str_int i"
| "dumps level (JFloat r) = r"
| "dumps level (JStr s) = json_string s"
| "dumps level (JArr xs) =
     (if xs = [] then ''[]''
      else ''['' @ newline_indent (Suc level) @ dumps_elems (Suc level) xs
           @ newline_indent level @ '']'')"
| "dumps level (JObj kvs) =
     (if kvs = [] then ''{}''
      else ''{'' @ newline_indent (Suc level) @ dumps_members (Suc level) kvs
           @ newline_indent level @ ''}'')"
| "dumps_elems level [] = []"
| "dumps_elems level (x # xs) =
     dumps level x @ (if xs = [] then [] else '','' @ newline_indent level @ dumps_elems level xs)"
| "dumps_members level [] = []"
| "dumps_members level ((k, v) # kvs) =
     json_string k @ '': '' @ dumps level v
       @ (if kvs = [] then [] else '','' @ newline_indent level @ dumps_members level kvs)"

definition json_dumps_indent2 :: "json \<Rightarrow> string" where
  "json_dumps_indent2 obj = dumps 0 obj"

subsection \<open>json.loads\<close>

definition is_json_ws :: "char \<Rightarrow> bool" where
  "is_json_ws c = (c = CHR '' '' \<or> c = CHR 0x09 \<or> c = CHR 0x0A \<or> c = CHR 0x0D)"

definition skip_ws :: "string \<Rightarrow> string" where
  "skip_ws s = dropWhile is_json_ws s"

definition hex_val :: "char \<Rightarrow> nat option" where
  "hex_val c =
     (if 48 \<le> ord c \<and> ord c \<le> 57 then Some (ord c - 48)
      else if 97 \<le> ord c \<and> ord c \<le> 102 then Some (ord c - 87)
      else if 65 \<le> ord c \<and> ord c \<le> 70 then Some (ord c - 55)
      else None)"

text \<open>
  The body of a string after its opening quote, up to the closing quote. Control
  characters are rejected; of the \<open>\u\<close> escapes those below 256 are decoded, the others
  are outside this model of strings as byte lists.
\<close>

fun parse_str :: "string \<Rightarrow> string \<Rightarrow> (string \<times> string) option" where
  "parse_str [] acc = None"
| "parse_str (c # cs) acc =
     (if c = dquote then Some (acc, cs)
      else if c = backslash then
        (case cs of
           [] \<Rightarrow> None
         | e # r \<Rightarrow>
             if e = dquote \<or> e = backslash \<or> e = CHR ''/'' then parse_str r (acc @ [e])
             else if e = CHR ''n'' then parse_str r (acc @ [CHR 0x0A])
             else if e = CHR ''r'' then parse_str r (acc @ [CHR 0x0D])
             else if e = CHR ''t'' then parse_str r (acc @ [CHR 0x09])
             else if e = CHR ''b'' then parse_str r (acc @ [CHR 0x08])
             else if e = CHR ''f'' then parse_str r (acc @ [CHR 0x0C])
             else if e = CHR ''u'' then
               (case r of
                  h1 # h2 # h3 # h4 # r' \<Rightarrow>
                    (case (hex_val h1, hex_val h2, hex_val h3, hex_val h4) of
                       (Some a, Some b, Some x, Some y) \<Rightarrow>
                         if a = 0 \<and> b = 0 then parse_str r' (acc @ [char_of (16 * x + y)])
                         else None
                     | _ \<Rightarrow> None)
                | _ \<Rightarrow> None)
             else None)
      else if ord c < 32 then None
      else parse_str cs (acc @ [c]))"

definition is_digit :: "char \<Rightarrow> bool" where
  "is_digit c = (48 \<le> ord c \<and> ord c \<le> 57)"

text \<open>
  A number: an optional minus, the integer digits (no leading zero before another digit),
  an optional fraction and an optional exponent. Without fraction and exponent it is an
  integer, otherwise a float, kept as its text.
\<close>

definition parse_number :: "string \<Rightarrow> (json \<times> string) option" where
  "parse_number s =
     (let (sign, s1) = (case s of c # cs \<Rightarrow> if c = CHR ''-'' then (''-'', cs) else ([], s)
                                 | [] \<Rightarrow> ([], s));
          ds = takeWhile is_digit s1; s2 = dropWhile is_digit s1
      in if ds = [] \<or> (length ds > 1 \<and> hd ds = CHR ''0'') then None
         else
           let (frac, s3) =
                 (case s2 of
                    c # cs \<Rightarrow>
                      if c = CHR ''.'' \<and> takeWhile is_digit cs \<noteq> []
                      then (c # takeWhile is_digit cs, dropWhile is_digit cs) else ([], s2)
                  | [] \<Rightarrow> ([], s2));
               (ex, s4) =
                 (case s3 of
                    c # cs \<Rightarrow>
                      if c = CHR ''e'' \<or> c = CHR ''E'' then
                        (let (sg, r) = (case cs of
                                          g # r \<Rightarrow> if g = CHR ''+'' \<or> g = CHR ''-''
                                                   then ([g], r) else ([], cs)
                                        | [] \<Rightarrow> ([], cs))
                         in if takeWhile is_digit r \<noteq> []
                            then (c # sg @ takeWhile is_digit r, dropWhile is_digit r)
                            else ([], s3))
                      else ([], s3)
                  | [] \<Rightarrow> ([], s3))
           in if frac = [] \<and> ex = [] then
                (case nat_of_digits ds of
                   None \<Rightarrow> None
                 | Some n \<Rightarrow> Some (JInt (if sign = [] then int n else - int n), s4))
              else Some (JFloat (sign @ ds @ frac @ ex), s4))"

text \<open>\<open>d[k] = v\<close> on a dictionary in insertion order.\<close>

fun dict_set :: "('k \<times> 'v) list \<Rightarrow> 'k \<Rightarrow> 'v \<Rightarrow> ('k \<times> 'v) list" where
  "dict_set [] k v = [(k, v)]"
| "dict_set ((k', x) # d) k v = (if k' = k then (k', v) # d else (k', x) # dict_set d k v)"

definition starts_with :: "string \<Rightarrow> string \<Rightarrow> bool" where
  "starts_with p s = (take (length p) s = p)"

text \<open>
  The recursive-descent decoder. The first argument bounds the nesting and the number of
  members read; \<open>json_loads\<close> passes more than the length of the text.
\<close>

fun parse_value :: "nat \<Rightarrow> string \<Rightarrow> (json \<times> string) option"
  and parse_elems :: "nat \<Rightarrow> string \<Rightarrow> json list \<Rightarrow> (json \<times> string) option"
  and parse_members :: "nat \<Rightarrow> string \<Rightarrow> (string \<times> json) list \<Rightarrow> (json \<times> string) option"
where
  "parse_value 0 s = None"
| "parse_value (Suc fuel) s =
     (case s of
        [] \<Rightarrow> None
      | c # cs \<Rightarrow>
          if c = CHR ''{'' then
            (case skip_ws cs of
               [] \<Rightarrow> None
             | d # r \<Rightarrow> if d = CHR ''}'' then Some (JObj [], r)
                        else parse_members fuel (d # r) [])
          else if c = CHR ''['' then
            (case skip_ws cs of
               [] \<Rightarrow> None
             | d # r \<Rightarrow> if d = CHR '']'' then Some (JArr [], r)
                        else parse_elems fuel (d # r) [])
          else if c = dquote then
            (case parse_str cs [] of None \<Rightarrow> None | Some (str, r) \<Rightarrow> Some (JStr str, r))
          else if starts_with ''null'' s then Some (JNull, drop 4 s)
          else if starts_with ''true'' s then Some (JBool True, drop 4 s)
          else if starts_with ''false'' s then Some (JBool False, drop 5 s)
          else if starts_with ''NaN'' s then Some (JFloat ''NaN'', drop 3 s)
          else if starts_with ''Infinity'' s then Some (JFloat ''Infinity'', drop 8 s)
          else if starts_with ''-Infinity'' s then Some (JFloat ''-Infinity'', drop 9 s)
          else parse_number s)"
| "parse_elems 0 s acc = None"
| "parse_elems (Suc fuel) s acc =
     (case parse_value fuel s of
        None \<Rightarrow> None
      | Some (v, r) \<Rightarrow>
          (case skip_ws r of
             [] \<Rightarrow> None
           | d # r' \<Rightarrow>
               if d = CHR '','' then parse_elems fuel (skip_ws r') (acc @ [v])
               else if d = CHR '']'' then Some (JArr (acc @ [v]), r')
               else None))"
| "parse_members 0 s acc = None"
| "parse_members (Suc fuel) s acc =
     (case s of
        [] \<Rightarrow> None
      | q # cs \<Rightarrow>
          if q \<noteq> dquote then None
          else
            (case parse_str cs [] of
               None \<Rightarrow> None
             | Some (k, r) \<Rightarrow>
                 (case skip_ws r of
                    [] \<Rightarrow> None
                  | colon # r1 \<Rightarrow>
                      if colon \<noteq> CHR '':'' then None
                      else
                        (case parse_value fuel (skip_ws r1) of
                           None \<Rightarrow> None
                         | Some (v, r2) \<Rightarrow>
                             (case skip_ws r2 of
                                [] \<Rightarrow> None
                              | d # r3 \<Rightarrow>
                                  if d = CHR '','' then
                                    parse_members fuel (skip_ws r3) (dict_set acc k v)
                                  else if d = CHR ''}'' then Some (JObj (dict_set acc k v), r3)
                                  else None)))))"

definition json_loads :: "string \<Rightarrow> error + json" where
  "json_loads s =
     (case parse_value (Suc (length s)) (skip_ws s) of
        None \<Rightarrow> Inl JSONDecodeError
      | Some (v, r) \<Rightarrow> if skip_ws r = [] then Inr v else Inl JSONDecodeError)"

section \<open>helpers/analyze\_ensemble\_2024.py: load\_ensemble\_ndjson\<close>

text \<open>
  The lines of a text file as iterating over the file yields them, each with its line
  break when it has one.
\<close>

fun file_lines :: "string \<Rightarrow> string list" where
  "file_lines [] = []"
| "file_lines (c # cs) =
     (if c = LF then [c] # file_lines cs
      else (case file_lines cs of [] \<Rightarrow> [[c]] | l # ls \<Rightarrow> (c # l) # ls))"

text \<open>
  The loop of \<open>load_ensemble_ndjson\<close>: strip the line, skip it when empty, otherwise
  parse it as one JSON value and append.
\<close>

fun load_lines :: "string list \<Rightarrow> json list \<Rightarrow> error + json list" where
  "load_lines [] plans = Inr plans"
| "load_lines (line # rest) plans =
     (let line = strip line in
      if line = [] then load_lines rest plans
      else
        (case json_loads line of
           Inl e \<Rightarrow> Inl e
         | Inr plan \<Rightarrow> load_lines rest (plans @ [plan])))"

definition load_ensemble_ndjson :: "string \<Rightarrow> error + json list" where
  "load_ensemble_ndjson content = load_lines (file_lines content) []"


section \<open>voting\_district\_metrics.py: the plan record\<close>

text \<open>
  The arguments of \<open>stream_plans_ndjson\<close> and the globals \<open>POP_KEY\<close>, \<open>DEM_KEY\<close> and
  \<open>REP_KEY\<close> that \<open>setup_from_graph\<close> fills. \<open>epsilon\<close> is a float.
\<close>

record config =
  samples :: int
  steps_between :: int
  epsilon :: string
  seed :: int
  burn_in :: int
  thin :: int
  POP_KEY :: string
  DEM_KEY :: string
  REP_KEY :: string

text \<open>\<open>assignment_dict\<close>: \<open>{str(node): int(label)}\<close> over \<open>partition.assignment.items()\<close>.\<close>

definition assignment_dict :: "partition \<Rightarrow> json" where
  "assignment_dict p = JObj (map (\<lambda>(node, label). (str_int node, JInt label)) (assignment p))"

text \<open>The object built at lines 214 to 231, \<open>saved\<close> being the number of plans saved before.\<close>

definition plan_obj :: "config \<Rightarrow> int \<Rightarrow> bool \<Rightarrow> int \<Rightarrow> string \<Rightarrow> partition \<Rightarrow> json" where
  "plan_obj c saved contig gop eg state =
     JObj
       [(''meta'',
         JObj
           [(''source_graph'', JStr ''pretty_print.json''),
            (''epsilon'', JFloat (epsilon c)),
            (''seed'', JInt (seed c)),
            (''steps_between'', JInt (steps_between c)),
            (''burn_in'', JInt (burn_in c)),
            (''thin'', JInt (thin c)),
            (''pop_key'', JStr (POP_KEY c)),
            (''dem_key'', JStr (DEM_KEY c)),
            (''rep_key'', JStr (REP_KEY c))]),
        (''index'', JInt (saved + 1)),
        (''contiguous'', JBool contig),
        (''gop_seats'', JInt gop),
        (''efficiency_gap'', JFloat eg),
        (''assignment'', assignment_dict state)]"

text \<open>
  Lines 209 to 231: the contiguity check, the seat tally and the efficiency gap of the
  state, then the object. \<open>metrics.efficiency_gap\<close> is GerryChain's, library code outside
  the repository: it is the argument \<open>metrics_efficiency_gap\<close>, a float or an exception.
\<close>

definition plan_record ::
  "config \<Rightarrow> (partition \<Rightarrow> error + string) \<Rightarrow> int \<Rightarrow> partition \<Rightarrow> error + json" where
  "plan_record c metrics_efficiency_gap saved state =
     (case is_partition_contiguous state of
        Inl e \<Rightarrow> Inl e
      | Inr contig \<Rightarrow>
          (case seats_gop_by_tally (DEM_KEY c) (REP_KEY c) state of
             Inl e \<Rightarrow> Inl e
           | Inr gop \<Rightarrow>
               (case metrics_efficiency_gap state of
                  Inl e \<Rightarrow> Inl e
                | Inr eg \<Rightarrow> Inr (plan_obj c saved contig gop eg state))))"

text \<open>
  Lines 234 to 236: \<open>json.dump(obj, pf, indent=2, ensure_ascii=False)\<close> and
  \<open>pf.write("\n\n")\<close> on the file opened for appending.
\<close>

definition append_plan :: "string \<Rightarrow> json \<Rightarrow> string" where
  "append_plan content obj = content @ json_dumps_indent2 obj @ [LF, LF]"

section \<open>helpers/analyze\_ensemble\_2024.py: one row per plan\<close>

text \<open>\<open>plan.get(key)\<close>: \<open>None\<close> for a missing key, \<open>AttributeError\<close> on a value that is no object.\<close>

definition plan_get :: "json \<Rightarrow> string \<Rightarrow> error + json" where
  "plan_get plan key =
     (case plan of
        JObj kvs \<Rightarrow> (case map_of kvs key of None \<Rightarrow> Inr JNull | Some v \<Rightarrow> Inr v)
      | _ \<Rightarrow> Inl AttributeError)"

text \<open>\<open>int(x)\<close> on a JSON value (a float, which \<open>int\<close> would truncate, is not modelled).\<close>

definition py_int :: "json \<Rightarrow> error + int" where
  "py_int v =
     (case v of
        JInt i \<Rightarrow> Inr i
      | JBool b \<Rightarrow> Inr (if b then 1 else 0)
      | JStr s \<Rightarrow> int_of_str s
      | JFloat r \<Rightarrow> Inl ValueError
      | _ \<Rightarrow> Inl TypeError)"

text \<open>
  Lines 202 and 203: \<open>plan.get('assignment', {})\<close> and
  \<open>{int(node): int(dist) for node, dist in assignment_raw.items()}\<close>.
\<close>

fun int_items :: "(string \<times> json) list \<Rightarrow> (int \<times> int) list \<Rightarrow> error + (int \<times> int) list" where
  "int_items [] acc = Inr acc"
| "int_items ((node, di) # rest) acc =
     (case int_of_str node of
        Inl e \<Rightarrow> Inl e
      | Inr n \<Rightarrow>
          (case py_int di of
             Inl e \<Rightarrow> Inl e
           | Inr d \<Rightarrow> int_items rest (dict_set acc n d)))"

definition plan_assignment :: "json \<Rightarrow> error + (int \<times> int) list" where
  "plan_assignment plan =
     (case plan of
        JObj kvs \<Rightarrow>
          (case map_of kvs ''assignment'' of
             None \<Rightarrow> Inr []
           | Some (JObj items) \<Rightarrow> int_items items []
           | Some _ \<Rightarrow> Inl AttributeError)
      | _ \<Rightarrow> Inl AttributeError)"

text \<open>
  The columns of a row that come from the record and from the seat loop and the efficiency
  gap (the other metrics are further columns of the same row).
\<close>

record metrics_row =
  plan_index :: json
  num_districts :: json
  rep_seats_generated :: json
  dem_seats_generated :: json
  gop_seats_recomputed_col :: int
  dem_seats_recomputed_col :: int
  ties_col :: int
  efficiency_gap_generated :: json
  efficiency_gap_recomputed :: "rat option"

text \<open>The body of the loop over the plans in the analyzer's \<open>main\<close> (lines 197 to 226).\<close>

definition analyze_plan :: "graph \<Rightarrow> json \<Rightarrow> error + metrics_row" where
  "analyze_plan g plan =
     (case plan_get plan ''plan_index'' of Inl e \<Rightarrow> Inl e | Inr idx \<Rightarrow>
      case plan_get plan ''num_districts'' of Inl e \<Rightarrow> Inl e | Inr num \<Rightarrow>
      case plan_get plan ''efficiency_gap'' of Inl e \<Rightarrow> Inl e | Inr eg_from_gen \<Rightarrow>
      case plan_get plan ''rep_seats_won'' of Inl e \<Rightarrow> Inl e | Inr rep_gen \<Rightarrow>
      case plan_get plan ''dem_seats_won'' of Inl e \<Rightarrow> Inl e | Inr dem_gen \<Rightarrow>
      case plan_assignment plan of Inl e \<Rightarrow> Inl e | Inr asg \<Rightarrow>
        (case aggregate_votes_by_district g asg DEM_COL REP_COL of
           (dem_by_dist, rep_by_dist, two_by_dist) \<Rightarrow>
             (case seat_loop dem_by_dist rep_by_dist (map fst dem_by_dist) (0, 0, 0) of
                (dem_seats, gop_seats, ties) \<Rightarrow>
                  Inr \<lparr>plan_index = idx, num_districts = num,
                       rep_seats_generated = rep_gen, dem_seats_generated = dem_gen,
                       gop_seats_recomputed_col = gop_seats,
                       dem_seats_recomputed_col = dem_seats, ties_col = ties,
                       efficiency_gap_generated = eg_from_gen,
                       efficiency_gap_recomputed =
                         compute_efficiency_gap dem_by_dist rep_by_dist\<rparr>)))"


section \<open>voting\_district\_metrics.py: stream\_plans\_ndjson\<close>

text \<open>
  The step ceiling handed to the chain (line 188).
\<close>

definition total_steps :: "config \<Rightarrow> int" where
  "total_steps c = (samples c + burn_in c) * (steps_between c + 1) * thin c + 100"

text \<open>
  The state of the loop: the two counters and the content of the output file.
\<close>

record loop_state =
  saved :: int
  saved_states_seen :: int
  content :: string

text \<open>
  The loop \<open>for step, state in enumerate(chain)\<close> (lines 198 to 245) over the steps still
  to come. \<open>chain\<close> gives the state the chain yields at each step: the chain itself, with
  its proposal and its constraint, is GerryChain's. Python's \<open>%\<close> raises
  \<open>ZeroDivisionError\<close> on a zero divisor. The result is the exception that ended the
  loop, if any, and the state then.
\<close>

fun chain_loop ::
  "config \<Rightarrow> (partition \<Rightarrow> error + string) \<Rightarrow> (nat \<Rightarrow> partition) \<Rightarrow> nat list \<Rightarrow> loop_state
     \<Rightarrow> error option \<times> loop_state"
where
  "chain_loop c metrics_efficiency_gap chain [] st = (None, st)"
| "chain_loop c metrics_efficiency_gap chain (step # rest) st =
     (if steps_between c + 1 = 0 then (Some ZeroDivisionError, st)
      else if int step mod (steps_between c + 1) \<noteq> steps_between c
        then chain_loop c metrics_efficiency_gap chain rest st
      else
        let st1 = st\<lparr>saved_states_seen := saved_states_seen st + 1\<rparr> in
        if saved_states_seen st1 \<le> burn_in c
          then chain_loop c metrics_efficiency_gap chain rest st1
        else if thin c = 0 then (Some ZeroDivisionError, st1)
        else if (saved_states_seen st1 - burn_in c - 1) mod thin c \<noteq> 0
          then chain_loop c metrics_efficiency_gap chain rest st1
        else
          (case plan_record c metrics_efficiency_gap (saved st1) (chain step) of
             Inl e \<Rightarrow> (Some e, st1)
           | Inr obj \<Rightarrow>
               let st2 = st1\<lparr>content := append_plan (content st1) obj, saved := saved st1 + 1\<rparr>
               in if saved st2 \<ge> samples c then (None, st2)
                  else chain_loop c metrics_efficiency_gap chain rest st2))"

text \<open>
  What a call leaves behind: the exception it raised or the value it returned (the
  function returns \<open>None\<close>), the number in the final \<open>Stream-saved N plans\<close> message when
  that line is reached, and the output file (\<open>None\<close>: no such file).
\<close>

datatype outcome = Raised error | Returned json

record run_result =
  outcome :: outcome
  stream_saved :: "int option"
  out_file :: "string option"

text \<open>
  Modelled from the spec: GerryChain's \<open>MarkovChain\<close> is library code, not part of the
  repository. The specification's step ceiling bounds the accepted steps: enumerating the
  chain gives the steps \<open>0\<close> to \<open>total_steps - 1\<close> (none for a ceiling that is not
  positive).
\<close>

definition chain_steps :: "config \<Rightarrow> nat list" where
  "chain_steps c = [0..<nat (total_steps c)]"

text \<open>
  \<open>stream_plans_ndjson\<close> from the construction of the chain on (line 183): the output
  file, whatever it held before, is emptied (line 192); then the loop runs over the chain
  and the message is printed.
\<close>

definition stream_plans_ndjson ::
  "config \<Rightarrow> (partition \<Rightarrow> error + string) \<Rightarrow> (nat \<Rightarrow> partition) \<Rightarrow> string option \<Rightarrow> run_result"
where
  "stream_plans_ndjson c metrics_efficiency_gap chain old_file =
     (case chain_loop c metrics_efficiency_gap chain (chain_steps c)
             \<lparr>saved = 0, saved_states_seen = 0, content = []\<rparr> of
        (Some e, st) \<Rightarrow>
          \<lparr>outcome = Raised e, stream_saved = None, out_file = Some (content st)\<rparr>
      | (None, st) \<Rightarrow>
          \<lparr>outcome = Returned JNull, stream_saved = Some (saved st),
           out_file = Some (content st)\<rparr>)"

subsection \<open>The recording cadence as the specification words it\<close>

text \<open>Every \<open>n\<close>-th element of a list: the \<open>n\<close>-th, the \<open>2n\<close>-th, and so on.\<close>

definition every_nth :: "nat \<Rightarrow> 'a list \<Rightarrow> 'a list" where
  "every_nth n xs = map (\<lambda>i. xs ! i) (filter (\<lambda>i. Suc i mod n = 0) [0..<length xs])"

text \<open>Every \<open>n\<close>-th element counted from the first: the first, the \<open>(n+1)\<close>-th, and so on.\<close>

definition every_nth_from_first :: "nat \<Rightarrow> 'a list \<Rightarrow> 'a list" where
  "every_nth_from_first n xs = map (\<lambda>i. xs ! i) (filter (\<lambda>i. i mod n = 0) [0..<length xs])"

text \<open>
  Of the accepted steps \<open>0, 1, ...\<close> below the ceiling, every \<open>(steps_between + 1)\<close>-th is
  candidate-kept; the first \<open>burn_in\<close> of these are discarded; of the remainder every
  \<open>thin\<close>-th is recorded; recording stops after \<open>samples\<close> records.
\<close>

definition candidate_kept :: "config \<Rightarrow> nat list" where
  "candidate_kept c = every_nth (nat (steps_between c) + 1) (chain_steps c)"

definition kept_steps :: "config \<Rightarrow> nat list" where
  "kept_steps c =
     take (nat (samples c))
       (every_nth_from_first (nat (thin c)) (drop (nat (burn_in c)) (candidate_kept c)))"

text \<open>The text of a sequence of records as the file holds them.\<close>

definition records_text :: "json list \<Rightarrow> string" where
  "records_text objs = concat (map (\<lambda>obj. json_dumps_indent2 obj @ [LF, LF]) objs)"

text \<open>
  The records of the chain's states at the given steps, in order, the first one built with
  \<open>k\<close> plans saved before it (so that its index is \<open>k + 1\<close>).
\<close>

fun records_from ::
  "config \<Rightarrow> (partition \<Rightarrow> error + string) \<Rightarrow> (nat \<Rightarrow> partition) \<Rightarrow> int \<Rightarrow> nat list \<Rightarrow> json list"
where
  "records_from c metrics_efficiency_gap chain k [] = []"
| "records_from c metrics_efficiency_gap chain k (step # steps) =
     projr (plan_record c metrics_efficiency_gap k (chain step))
       # records_from c metrics_efficiency_gap chain (k + 1) steps"

text \<open>
  Every state of the chain can be recorded: its tallies are defined and the library's
  efficiency gap raises nothing.
\<close>

definition recordable :: "config \<Rightarrow> (partition \<Rightarrow> error + string) \<Rightarrow> (nat \<Rightarrow> partition) \<Rightarrow> bool" where
  "recordable c metrics_efficiency_gap chain =
     (\<forall>i. (\<exists>gop. seats_gop_by_tally (DEM_KEY c) (REP_KEY c) (chain i) = Inr gop) \<and>
          (\<exists>eg. metrics_efficiency_gap (chain i) = Inr eg))"

text \<open>A configuration as the command line of the sampler gives it, and a constant chain.\<close>

definition cli_config :: "int \<Rightarrow> int \<Rightarrow> int \<Rightarrow> int \<Rightarrow> config" where
  "cli_config n_samples between burn thinning =
     \<lparr>samples = n_samples, steps_between = between, epsilon = ''0.02'', seed = 24,
      burn_in = burn, thin = thinning,
      POP_KEY = ''TOT_POP'', DEM_KEY = ''PREDEM24'', REP_KEY = ''PREREP24''\<rparr>"

definition still_chain :: "nat \<Rightarrow> partition" where
  "still_chain i = contiguous_plan"

definition zero_gap :: "partition \<Rightarrow> error + string" where
  "zero_gap p = Inr ''0.0''"

subsection \<open>Auxiliary notions for the loop\<close>

text \<open>
  The steps at which the loop writes a record, given the steps still to come and the two
  counters.
\<close>

fun loop_kept :: "config \<Rightarrow> nat list \<Rightarrow> int \<Rightarrow> int \<Rightarrow> nat list" where
  "loop_kept c [] seen k = []"
| "loop_kept c (step # rest) seen k =
     (if int step mod (steps_between c + 1) \<noteq> steps_between c then loop_kept c rest seen k
      else if seen + 1 \<le> burn_in c then loop_kept c rest (seen + 1) k
      else if (seen + 1 - burn_in c - 1) mod thin c \<noteq> 0 then loop_kept c rest (seen + 1) k
      else step # (if k + 1 \<ge> samples c then [] else loop_kept c rest (seen + 1) (k + 1)))"

text \<open>The candidate-kept steps that pass burn-in and thinning, \<open>seen\<close> candidates having passed.\<close>

fun thinned :: "config \<Rightarrow> int \<Rightarrow> nat list \<Rightarrow> nat list" where
  "thinned c seen [] = []"
| "thinned c seen (x # xs) =
     (if seen + 1 \<le> burn_in c \<or> (seen + 1 - burn_in c - 1) mod thin c \<noteq> 0 then []
      else [x]) @ thinned c (seen + 1) xs"

text \<open>The elements of a list at the positions \<open>i\<close> with \<open>i + off\<close> a multiple of \<open>n\<close>.\<close>

definition pick :: "nat \<Rightarrow> nat \<Rightarrow> 'a list \<Rightarrow> 'a list" where
  "pick n off xs = map (\<lambda>i. xs ! i) (filter (\<lambda>i. (i + off) mod n = 0) [0..<length xs])"


section \<open>Verified properties\<close>

subsection \<open>The efficiency gap\<close>

lemma rat_floor_divide_numeral [simp]:
  "\<lfloor>numeral a / numeral b :: rat\<rfloor> = numeral a div numeral b"
  using floor_divide_of_int_eq[of "numeral a" "numeral b", where ?'a = rat] by simp

lemma rat_floor_one_divide_numeral [simp]:
  "\<lfloor>1 / numeral b :: rat\<rfloor> = 1 div numeral b"
  using floor_divide_of_int_eq[of 1 "numeral b", where ?'a = rat] by simp









subsection \<open>The partisan bias\<close>

lemma pb_loop_shape:
  "pb_loop D R ks (sh, td, tr) =
     (sh @ map (\<lambda>(a, b). a / (a + b)) (qualifying (map (\<lambda>k. (dd_get D k, dd_get R k)) ks)),
      td + sum_list (map fst (qualifying (map (\<lambda>k. (dd_get D k, dd_get R k)) ks))),
      tr + sum_list (map snd (qualifying (map (\<lambda>k. (dd_get D k, dd_get R k)) ks))))"
proof (induction ks arbitrary: sh td tr)
  case Nil
  show ?case by (simp add: qualifying_def)
next
  case (Cons k ks)
  show ?case
  proof (cases "dd_get D k + dd_get R k \<le> 0")
    case True
    then show ?thesis using Cons.IH by (simp add: qualifying_def Let_def)
  next
    case False
    then show ?thesis using Cons.IH
      by (simp add: qualifying_def Let_def add.assoc)
  qed
qed

lemma qualifying_total_pos:
  "qs = qualifying ps \<Longrightarrow> qs \<noteq> [] \<Longrightarrow> 0 < sum_list (map fst qs) + sum_list (map snd qs)"
proof (induction ps arbitrary: qs)
  case Nil
  then show ?case by (simp add: qualifying_def)
next
  case (Cons p ps)
  obtain a b where p: "p = (a, b)" by (cases p)
  show ?case
  proof (cases "qualifying ps = []")
    case True
    with Cons.prems p show ?thesis by (auto simp: qualifying_def split: if_splits)
  next
    case False
    from Cons.IH[OF refl False] have "0 < sum_list (map fst (qualifying ps)) + sum_list (map snd (qualifying ps))" .
    with Cons.prems p show ?thesis by (auto simp: qualifying_def split: if_splits)
  qed
qed

lemma seat_share_bounds:
  fixes xs :: "rat list"
  assumes "xs \<noteq> []"
  shows "- (1 / 2) \<le> of_nat (length (filter P xs)) / (of_nat (length xs) :: rat) - 1 / 2"
    and "of_nat (length (filter P xs)) / (of_nat (length xs) :: rat) - 1 / 2 \<le> 1 / 2"
proof -
  have n: "0 < (of_nat (length xs) :: rat)" using assms by simp
  have le: "(of_nat (length (filter P xs)) :: rat) \<le> of_nat (length xs)"
    by (simp only: of_nat_le_iff length_filter_le)
  have "0 \<le> of_nat (length (filter P xs)) / (of_nat (length xs) :: rat)" by simp
  then show "- (1 / 2) \<le> of_nat (length (filter P xs)) / (of_nat (length xs) :: rat) - 1 / 2"
    by simp
  have "of_nat (length (filter P xs)) / (of_nat (length xs) :: rat) \<le> 1"
    using n le by (simp add: divide_le_eq_1)
  then show "of_nat (length (filter P xs)) / (of_nat (length xs) :: rat) - 1 / 2 \<le> 1 / 2"
    by linarith
qed

text \<open>
  C10. Whenever at least one district qualifies (positive two-party total),
  \<open>compute_partisan_bias\<close> returns a number (the statewide total is then positive too),
  and that number lies in the closed interval from \<open>-1/2\<close> to \<open>1/2\<close>.
\<close>

theorem partisan_bias_in_range:
  assumes "qualifying (district_pairs D R) \<noteq> []"
  shows "\<exists>b. compute_partisan_bias D R = Some b \<and> - (1 / 2) \<le> b \<and> b \<le> 1 / 2"
proof -
  define qs where "qs = qualifying (district_pairs D R)"
  define shares where "shares = map (\<lambda>(a, b). a / (a + b)) qs"
  define td where "td = sum_list (map fst qs)"
  define tr where "tr = sum_list (map snd qs)"
  have loop: "pb_loop D R (map fst D) ([], 0, 0) = (shares, td, tr)"
    by (simp add: pb_loop_shape shares_def td_def tr_def qs_def district_pairs_def)
  have ne: "shares \<noteq> []" using assms by (simp add: shares_def qs_def)
  have pos: "0 < td + tr"
    using qualifying_total_pos[OF qs_def] assms by (simp add: td_def tr_def qs_def)
  define swung where "swung = map (\<lambda>s. min (max (s + (1 / 2 - td / (td + tr))) 0) 1) shares"
  have sne: "swung \<noteq> []" using ne by (simp add: swung_def)
  have val: "compute_partisan_bias D R =
      Some (of_nat (length (filter (\<lambda>s. s > 1 / 2) swung)) / of_nat (length swung) - 1 / 2)"
  proof -
    have c: "\<not> (shares = [] \<or> td + tr = 0)" using ne pos by simp
    show ?thesis
      unfolding compute_partisan_bias_def loop Let_def swung_def prod.case
      using c by (simp only: if_False)
  qed
  show ?thesis
    using val seat_share_bounds[OF sne, of "\<lambda>s. s > 1 / 2"] by blast
qed

theorem partisan_bias_in_range_witness:
  "qualifying (district_pairs [(1, 6), (2, 3)] [(1, 4), (2, 7)]) \<noteq> [] \<and>
   (\<exists>b. compute_partisan_bias [(1, 6), (2, 3)] [(1, 4), (2, 7)] = Some b \<and>
        - (1 / 2) \<le> b \<and> b \<le> 1 / 2)"
proof -
  have q: "qualifying (district_pairs [(1, 6), (2, 3)] [(1, 4), (2, 7)]) \<noteq> []"
    by (simp add: qualifying_def district_pairs_def dd_get_def)
  from partisan_bias_in_range[OF q] q show ?thesis by blast
qed

subsection \<open>District tallies of the sampler and of the analyzer\<close>


















subsection \<open>Tally aggregation in float arithmetic\<close>

text \<open>
  Doubles hold every whole number below \<open>2^53\<close>, so float additions of whole numbers
  with a sum below \<open>2^53\<close> round nothing.
\<close>

lemma round_half_even_of_int: "round_half_even (of_int m) = m"
  by (simp add: round_half_even_def)

lemma halvings_bound: "x < 2 ^ Suc k \<Longrightarrow> halvings x \<le> k"
proof (induction k arbitrary: x)
  case 0
  then show ?case by (subst halvings.simps) simp
next
  case (Suc k)
  show ?case
  proof (cases "2 \<le> x")
    case True
    have "x / 2 < 2 ^ Suc k" using Suc.prems by simp
    from Suc.IH[OF this] True show ?thesis by (subst halvings.simps) simp
  next
    case False
    then show ?thesis by (subst halvings.simps) simp
  qed
qed

lemma round_double_whole:
  assumes "0 \<le> n" "n < 2 ^ 53"
  shows "round_double (of_int n) = of_int n"
proof (cases "n = 0")
  case True
  then show ?thesis by (simp add: round_double_def)
next
  case False
  define x :: rat where "x = of_int n"
  have x1: "1 \<le> x" using assms(1) False by (simp add: x_def)
  have "x < 2 ^ Suc 52"
  proof -
    have "(of_int n :: rat) < of_int (2 ^ 53)" using assms(2) by (simp only: of_int_less_iff)
    then show ?thesis by (simp add: x_def)
  qed
  then have h: "halvings x \<le> 52" by (rule halvings_bound)
  define j where "j = 52 - halvings x"
  have ax: "\<bar>x\<bar> = x" using x1 by simp
  have e: "binary_exponent x - 52 = - int j" using x1 h by (simp add: binary_exponent_def j_def)
  have ulp: "pow2 (binary_exponent x - 52) = 1 / 2 ^ j"
    unfolding e by (cases "j = 0") (simp_all add: pow2_def)
  have q: "x / (1 / 2 ^ j) = of_int (n * 2 ^ j)" by (simp add: x_def)
  have sg: "sgn x = 1" using x1 by simp
  have x0: "x \<noteq> 0" using x1 by simp
  have "round_double x = sgn x * of_int (round_half_even (\<bar>x\<bar> / (1 / 2 ^ j))) * (1 / 2 ^ j)"
    unfolding round_double_def Let_def ax ulp using x0 by simp
  also have "\<dots> = of_int (n * 2 ^ j) * (1 / 2 ^ j)"
    unfolding ax q round_half_even_of_int sg by simp
  also have "\<dots> = x" by (simp add: x_def)
  finally show ?thesis by (simp add: x_def)
qed

lemma whole_number_round:
  assumes "whole_number x" "x < 2 ^ 53"
  shows "round_double x = x"
proof -
  from assms(1) have x: "x = of_int \<lfloor>x\<rfloor>" and nn: "0 \<le> \<lfloor>x\<rfloor>"
    by (simp_all add: whole_number_def)
  have "(of_int \<lfloor>x\<rfloor> :: rat) < of_int (2 ^ 53)" using assms(2) x by simp
  then have "\<lfloor>x\<rfloor> < 2 ^ 53" by (simp only: of_int_less_iff)
  from round_double_whole[OF nn this] x show ?thesis by simp
qed

lemma whole_number_add: "whole_number a \<Longrightarrow> whole_number b \<Longrightarrow> whole_number (a + b)"
proof -
  assume a: "whole_number a" and b: "whole_number b"
  then have "a + b = of_int (\<lfloor>a\<rfloor> + \<lfloor>b\<rfloor>)" by (simp add: whole_number_def)
  then have "a + b = of_int \<lfloor>a + b\<rfloor>" by (metis floor_of_int)
  then show ?thesis using a b by (simp add: whole_number_def)
qed

lemma whole_number_0: "whole_number 0"
  by (simp add: whole_number_def)

lemma fadd_whole:
  "whole_number a \<Longrightarrow> whole_number b \<Longrightarrow> a + b < 2 ^ 53 \<Longrightarrow> fadd a b = a + b"
  unfolding fadd_def by (rule whole_number_round[OF whole_number_add])

lemma whole_sum_nonneg: "list_all whole_number xs \<Longrightarrow> 0 \<le> sum_list xs"
  by (induction xs) (auto simp: whole_number_def)

lemma whole_sum: "list_all whole_number xs \<Longrightarrow> whole_number (sum_list xs)"
  by (induction xs) (auto simp: whole_number_0 whole_number_add)

lemma foldl_fadd_whole:
  "whole_number acc \<Longrightarrow> list_all whole_number xs \<Longrightarrow> acc + sum_list xs < 2 ^ 53 \<Longrightarrow>
     foldl fadd acc xs = acc + sum_list xs"
proof (induction xs arbitrary: acc)
  case Nil
  show ?case by simp
next
  case (Cons x xs)
  have wx: "whole_number x" and wxs: "list_all whole_number xs" using Cons.prems(2) by simp_all
  have "0 \<le> sum_list xs" using wxs by (rule whole_sum_nonneg)
  then have b: "acc + x < 2 ^ 53" using Cons.prems(3) by simp
  have f: "fadd acc x = acc + x" using Cons.prems(1) wx b by (rule fadd_whole)
  have "foldl fadd (acc + x) xs = acc + x + sum_list xs"
    using Cons.prems(3) by (intro Cons.IH whole_number_add Cons.prems(1) wx wxs) (simp add: add.assoc)
  then show ?case by (simp add: f add.assoc)
qed

lemma fsum_whole:
  "list_all whole_number xs \<Longrightarrow> sum_list xs < 2 ^ 53 \<Longrightarrow> fsum xs = sum_list xs"
  using foldl_fadd_whole[of 0 xs] by (simp add: fsum_def whole_number_0)

lemma dd_add_float_whole:
  "list_all whole_number (map snd d) \<Longrightarrow> whole_number v \<Longrightarrow>
     sum_list (map snd d) + v < 2 ^ 53 \<Longrightarrow> dd_add_float d k v = dd_add d k v"
proof (induction d k v rule: dd_add.induct)
  case (1 k v)
  then show ?case by (simp add: fadd_whole whole_number_0)
next
  case (2 k' x d k v)
  have wx: "whole_number x" and wd: "list_all whole_number (map snd d)" using "2.prems"(1) by simp_all
  have nd: "0 \<le> sum_list (map snd d)" using wd by (rule whole_sum_nonneg)
  have nx: "0 \<le> x" using wx by (simp add: whole_number_def)
  show ?case
  proof (cases "k' = k")
    case True
    have "x + v < 2 ^ 53" using "2.prems"(3) nd by simp
    from fadd_whole[OF wx "2.prems"(2) this] True show ?thesis by simp
  next
    case False
    have "sum_list (map snd d) + v < 2 ^ 53" using "2.prems"(3) nx by simp
    from "2.IH"[OF False wd "2.prems"(2) this] False show ?thesis by simp
  qed
qed

lemma dd_add_whole:
  "list_all whole_number (map snd d) \<Longrightarrow> whole_number v \<Longrightarrow>
     list_all whole_number (map snd (dd_add d k v))"
  by (induction d k v rule: dd_add.induct) (auto simp: whole_number_add)

lemma sum_snd_dd_add: "sum_list (map snd (dd_add d k v)) = sum_list (map snd d) + v"
  by (induction d k v rule: dd_add.induct) (auto simp: add.assoc add.commute add.left_commute)

lemma attr_float_rounded_whole:
  assumes "map_of (node_attrs g) n = Some attr" "whole_number (attribute_number g key n)"
    "attribute_number g key n < 2 ^ 53"
  shows "attr_float_rounded attr key = attribute_number g key n"
  using assms whole_number_round[of "attribute_number g key n"]
  by (auto simp: attr_float_rounded_def attribute_number_def split: option.splits pyval.splits)


lemma aggregate_loop_float_sums:
  assumes "aggregate_loop_float g dk rk items (D, R, T) = (D', R', T')"
    and "list_all whole_number (map snd D)" and "list_all whole_number (map snd R)"
    and "list_all (\<lambda>(n, d). whole_number (attribute_number g dk n)) items"
    and "list_all (\<lambda>(n, d). whole_number (attribute_number g rk n)) items"
    and "sum_list (map snd D) + sum_list (map (\<lambda>(n, d). attribute_number g dk n) items) < 2 ^ 53"
    and "sum_list (map snd R) + sum_list (map (\<lambda>(n, d). attribute_number g rk n) items) < 2 ^ 53"
  shows "list_all whole_number (map snd D') \<and> list_all whole_number (map snd R') \<and>
     sum_list (map snd D') =
       sum_list (map snd D) + sum_list (map (\<lambda>(n, d). attribute_number g dk n) items) \<and>
     sum_list (map snd R') =
       sum_list (map snd R) + sum_list (map (\<lambda>(n, d). attribute_number g rk n) items)"
  using assms
proof (induction items arbitrary: D R T)
  case Nil
  then show ?case by simp
next
  case (Cons it items)
  obtain n d where it: "it = (n, d)" by (cases it)
  define vd where "vd = attribute_number g dk n"
  define vr where "vr = attribute_number g rk n"
  define sd where "sd = sum_list (map (\<lambda>(n, d). attribute_number g dk n) items)"
  define sr where "sr = sum_list (map (\<lambda>(n, d). attribute_number g rk n) items)"
  have wvd: "whole_number vd" and wid: "list_all (\<lambda>(n, d). whole_number (attribute_number g dk n)) items"
    using Cons.prems(4) it by (simp_all add: vd_def)
  have wvr: "whole_number vr" and wir: "list_all (\<lambda>(n, d). whole_number (attribute_number g rk n)) items"
    using Cons.prems(5) it by (simp_all add: vr_def)
  have bd: "sum_list (map snd D) + (vd + sd) < 2 ^ 53"
    using Cons.prems(6) it by (simp add: vd_def sd_def)
  have br: "sum_list (map snd R) + (vr + sr) < 2 ^ 53"
    using Cons.prems(7) it by (simp add: vr_def sr_def)
  show ?case
  proof (cases "map_of (node_attrs g) n")
    case None
    have z: "vd = 0" "vr = 0" using None by (simp_all add: vd_def vr_def attribute_number_def)
    from Cons.prems(1) it None have
      "aggregate_loop_float g dk rk items (D, R, T) = (D', R', T')" by simp
    from Cons.IH[OF this Cons.prems(2,3) wid wir] bd br z
    show ?thesis using it by (simp add: sd_def sr_def vd_def vr_def)
  next
    case (Some attr)
    have nsd: "0 \<le> sd"
      unfolding sd_def using wid
      by (intro sum_list_nonneg) (auto simp: list_all_iff whole_number_def)
    have nsr: "0 \<le> sr"
      unfolding sr_def using wir
      by (intro sum_list_nonneg) (auto simp: list_all_iff whole_number_def)
    have nD: "0 \<le> sum_list (map snd D)" using Cons.prems(2) by (rule whole_sum_nonneg)
    have nR: "0 \<le> sum_list (map snd R)" using Cons.prems(3) by (rule whole_sum_nonneg)
    have nvd: "0 \<le> vd" and nvr: "0 \<le> vr" using wvd wvr by (simp_all add: whole_number_def)
    have vd53: "vd < 2 ^ 53" using bd nsd nD by linarith
    have vr53: "vr < 2 ^ 53" using br nsr nR by linarith
    have ad: "attr_float_rounded attr dk = vd"
      unfolding vd_def using Some wvd vd53 unfolding vd_def by (rule attr_float_rounded_whole)
    have ar: "attr_float_rounded attr rk = vr"
      unfolding vr_def using Some wvr vr53 unfolding vr_def by (rule attr_float_rounded_whole)
    have Dd: "dd_add_float D d vd = dd_add D d vd"
      using Cons.prems(2) wvd by (rule dd_add_float_whole) (use bd nsd in linarith)
    have Rd: "dd_add_float R d vr = dd_add R d vr"
      using Cons.prems(3) wvr by (rule dd_add_float_whole) (use br nsr in linarith)
    from Cons.prems(1) it Some have
      "aggregate_loop_float g dk rk items
         (dd_add D d vd, dd_add R d vr, dd_add_float T d (fadd vd vr)) = (D', R', T')"
      by (simp add: Let_def ad ar Dd Rd)
    from Cons.IH[OF this dd_add_whole[OF Cons.prems(2) wvd] dd_add_whole[OF Cons.prems(3) wvr] wid wir]
      bd br
    show ?thesis using it
      by (simp add: sum_snd_dd_add sd_def sr_def vd_def vr_def add.assoc)
  qed
qed

lemma sum_over_nodes_whole:
  assumes "whole_column g key a"
  shows "sum_over_nodes g key a = sum_list (map (\<lambda>(n, d). attribute_number g key n) a)"
proof -
  define xs where "xs = map (\<lambda>(n, d). attribute_number g key n) a"
  have w: "list_all whole_number xs"
    using assms by (auto simp: whole_column_def xs_def list_all_iff)
  have b: "sum_list xs < 2 ^ 53" using assms by (simp add: whole_column_def xs_def)
  have each: "x < 2 ^ 53" if "x \<in> set xs" for x
  proof -
    have "x \<le> sum_list xs"
      using that w by (intro member_le_sum_list) (auto simp: list_all_iff whole_number_def)
    with b show ?thesis by simp
  qed
  have "map (\<lambda>(n, d). attribute_as_float g key n) a = map round_double xs"
    by (simp add: xs_def attribute_as_float_def split_def)
  also have "\<dots> = xs"
    using w each by (intro map_idI whole_number_round) (auto simp: list_all_iff)
  finally have m: "map (\<lambda>(n, d). attribute_as_float g key n) a = xs" .
  have "sum_over_nodes g key a = fsum xs" unfolding sum_over_nodes_def m ..
  also have "\<dots> = sum_list xs" using w b by (rule fsum_whole)
  finally show ?thesis unfolding xs_def .
qed

lemma float_tallies_of_whole_votes:
  assumes "whole_column g dem_key a" and "whole_column g rep_key a"
  shows "sum_over_districts (fst (aggregate_votes_by_district_float g a dem_key rep_key)) =
           sum_over_nodes g dem_key a \<and>
         sum_over_districts (fst (snd (aggregate_votes_by_district_float g a dem_key rep_key))) =
           sum_over_nodes g rep_key a \<and>
         sum_over_nodes g dem_key a = sum_list (map (\<lambda>(n, d). attribute_number g dem_key n) a) \<and>
         sum_over_nodes g rep_key a = sum_list (map (\<lambda>(n, d). attribute_number g rep_key n) a)"
proof -
  obtain D R T where r: "aggregate_loop_float g dem_key rep_key a ([], [], []) = (D, R, T)"
    by (cases "aggregate_loop_float g dem_key rep_key a ([], [], [])") auto
  have s: "list_all whole_number (map snd D) \<and> list_all whole_number (map snd R) \<and>
     sum_list (map snd D) = sum_list (map (\<lambda>(n, d). attribute_number g dem_key n) a) \<and>
     sum_list (map snd R) = sum_list (map (\<lambda>(n, d). attribute_number g rep_key n) a)"
    using aggregate_loop_float_sums[OF r] assms by (simp add: whole_column_def)
  have bD: "sum_list (map snd D) < 2 ^ 53" using s assms(1) by (simp add: whole_column_def)
  have bR: "sum_list (map snd R) < 2 ^ 53" using s assms(2) by (simp add: whole_column_def)
  have "sum_over_districts D = sum_over_nodes g dem_key a"
    using s fsum_whole[OF _ bD] sum_over_nodes_whole[OF assms(1)] by (simp add: sum_over_districts_def)
  moreover have "sum_over_districts R = sum_over_nodes g rep_key a"
    using s fsum_whole[OF _ bR] sum_over_nodes_whole[OF assms(2)] by (simp add: sum_over_districts_def)
  ultimately show ?thesis
    using r sum_over_nodes_whole[OF assms(1)] sum_over_nodes_whole[OF assms(2)]
    by (simp add: aggregate_votes_by_district_float_def)
qed

text \<open>
  The whole-vote columns of \<open>path_graph\<close>, and the two sums on \<open>fractional_graph\<close>.
\<close>

lemma whole_path_dem: "whole_column path_graph ''PREDEM24'' [(1, 1), (2, 1), (3, 2), (4, 2)]"
  by (simp add: whole_column_def whole_number_def attribute_number_def path_graph_def)

lemma whole_path_rep: "whole_column path_graph ''PREREP24'' [(1, 1), (2, 1), (3, 2), (4, 2)]"
  by (simp add: whole_column_def whole_number_def attribute_number_def path_graph_def)

lemma path_dem_votes:
  "sum_list (map (\<lambda>(n, d). attribute_number path_graph ''PREDEM24'' n)
     [(1, 1), (2, 1), (3, 2), (4, 2)]) = 30"
  by (simp add: attribute_number_def path_graph_def)

lemma path_rep_votes:
  "sum_list (map (\<lambda>(n, d). attribute_number path_graph ''PREREP24'' n)
     [(1, 1), (2, 1), (3, 2), (4, 2)]) = 30"
  by (simp add: attribute_number_def path_graph_def)

lemma fractional_district_sum:
  "sum_over_districts (fst (aggregate_votes_by_district_float fractional_graph fractional_plan
       ''PREDEM24'' ''PREREP24'')) = 5404319552844595 / 9007199254740992"
  by code_simp

lemma fractional_node_sum:
  "sum_over_nodes fractional_graph ''PREDEM24'' fractional_plan =
     1351079888211149 / 2251799813685248"
  by code_simp

text \<open>
  C8 (amended). For every graph and assignment whose two vote columns hold whole,
  non-negative numbers with a total below \<open>2^53\<close> each, the per-district tallies that
  \<open>aggregate_votes_by_district\<close> builds in float arithmetic add up (the sum again a float
  sum) to the float sum of the attribute over all assigned nodes, for the first party's
  column and for the second party's column alike; and both sums are the exact sum of the
  attribute, no addition having rounded. A node the graph does not have, and a missing or
  non-numeric attribute, count as zero.
\<close>

theorem tally_aggregation_whole_votes:
  assumes "whole_column g dem_key a" and "whole_column g rep_key a"
  shows "sum_over_districts (fst (aggregate_votes_by_district_float g a dem_key rep_key)) =
           sum_over_nodes g dem_key a \<and>
         sum_over_districts (fst (snd (aggregate_votes_by_district_float g a dem_key rep_key))) =
           sum_over_nodes g rep_key a \<and>
         sum_over_nodes g dem_key a = sum_list (map (\<lambda>(n, d). attribute_number g dem_key n) a) \<and>
         sum_over_nodes g rep_key a = sum_list (map (\<lambda>(n, d). attribute_number g rep_key n) a)"
  using assms by (rule float_tallies_of_whole_votes)

text \<open>
  On \<open>path_graph\<close>, split into the districts \<open>{1, 2}\<close> and \<open>{3, 4}\<close>, both columns are
  whole, and the district tallies of either party add up to the 30 votes of its column.
\<close>

theorem tally_aggregation_whole_votes_witness:
  "whole_column path_graph ''PREDEM24'' [(1, 1), (2, 1), (3, 2), (4, 2)] \<and>
   whole_column path_graph ''PREREP24'' [(1, 1), (2, 1), (3, 2), (4, 2)] \<and>
   sum_over_districts (fst (aggregate_votes_by_district_float path_graph
       [(1, 1), (2, 1), (3, 2), (4, 2)] ''PREDEM24'' ''PREREP24'')) = 30 \<and>
   sum_over_districts (fst (snd (aggregate_votes_by_district_float path_graph
       [(1, 1), (2, 1), (3, 2), (4, 2)] ''PREDEM24'' ''PREREP24''))) = 30"
  using tally_aggregation_whole_votes [OF whole_path_dem whole_path_rep]
    whole_path_dem whole_path_rep path_dem_votes path_rep_votes
  by metis

text \<open>
  C8 as stated fails on fractional votes: with the first party's attribute \<open>0.1\<close>, \<open>0.2\<close>
  and \<open>0.3\<close> on three nodes, the first in district 2 and the other two in district 1, the
  district tallies are the doubles \<open>0.1\<close> and \<open>0.5\<close>, whose float sum is the double \<open>0.6\<close>
  (\<open>5404319552844595 / 2^53\<close>), while the float sum of the three attributes in the order
  of the assignment is the next double, \<open>0.6000000000000001\<close> (\<open>5404319552844596 / 2^53\<close>).
\<close>

theorem tally_aggregation_fractional_counterexample:
  "sum_over_districts (fst (aggregate_votes_by_district_float fractional_graph fractional_plan
       ''PREDEM24'' ''PREREP24'')) = 5404319552844595 / 9007199254740992 \<and>
   sum_over_nodes fractional_graph ''PREDEM24'' fractional_plan =
     5404319552844596 / 9007199254740992 \<and>
   sum_over_districts (fst (aggregate_votes_by_district_float fractional_graph fractional_plan
       ''PREDEM24'' ''PREREP24'')) \<noteq> sum_over_nodes fractional_graph ''PREDEM24'' fractional_plan"
  unfolding fractional_district_sum fractional_node_sum by simp

subsection \<open>The float tallies and the exact tallies\<close>

text \<open>
  On whole votes the tallies of the two parties in float arithmetic are the tallies in
  exact arithmetic, district by district.
\<close>

lemma attr_float_attribute_number:
  "map_of (node_attrs g) n = Some attr \<Longrightarrow> attr_float attr key = attribute_number g key n"
  by (auto simp: attr_float_def attribute_number_def split: option.splits pyval.splits)

lemma aggregate_loop_float_exact:
  assumes "list_all whole_number (map snd D)" and "list_all whole_number (map snd R)"
    and "list_all (\<lambda>(n, d). whole_number (attribute_number g dk n)) items"
    and "list_all (\<lambda>(n, d). whole_number (attribute_number g rk n)) items"
    and "sum_list (map snd D) + sum_list (map (\<lambda>(n, d). attribute_number g dk n) items) < 2 ^ 53"
    and "sum_list (map snd R) + sum_list (map (\<lambda>(n, d). attribute_number g rk n) items) < 2 ^ 53"
  shows "fst (aggregate_loop_float g dk rk items (D, R, T)) =
           fst (aggregate_loop g dk rk items (D, R, T')) \<and>
         fst (snd (aggregate_loop_float g dk rk items (D, R, T))) =
           fst (snd (aggregate_loop g dk rk items (D, R, T')))"
  using assms
proof (induction items arbitrary: D R T T')
  case Nil
  then show ?case by simp
next
  case (Cons it items)
  obtain n d where it: "it = (n, d)" by (cases it)
  define vd where "vd = attribute_number g dk n"
  define vr where "vr = attribute_number g rk n"
  define sd where "sd = sum_list (map (\<lambda>(n, d). attribute_number g dk n) items)"
  define sr where "sr = sum_list (map (\<lambda>(n, d). attribute_number g rk n) items)"
  have wvd: "whole_number vd" and wid: "list_all (\<lambda>(n, d). whole_number (attribute_number g dk n)) items"
    using Cons.prems(3) it by (simp_all add: vd_def)
  have wvr: "whole_number vr" and wir: "list_all (\<lambda>(n, d). whole_number (attribute_number g rk n)) items"
    using Cons.prems(4) it by (simp_all add: vr_def)
  have bd: "sum_list (map snd D) + (vd + sd) < 2 ^ 53"
    using Cons.prems(5) it by (simp add: vd_def sd_def)
  have br: "sum_list (map snd R) + (vr + sr) < 2 ^ 53"
    using Cons.prems(6) it by (simp add: vr_def sr_def)
  show ?case
  proof (cases "map_of (node_attrs g) n")
    case None
    have z: "vd = 0" "vr = 0" using None by (simp_all add: vd_def vr_def attribute_number_def)
    from Cons.IH[OF Cons.prems(1,2) wid wir, of T T'] bd br z
    show ?thesis using it None by (simp add: sd_def sr_def)
  next
    case (Some attr)
    have nsd: "0 \<le> sd"
      unfolding sd_def using wid
      by (intro sum_list_nonneg) (auto simp: list_all_iff whole_number_def)
    have nsr: "0 \<le> sr"
      unfolding sr_def using wir
      by (intro sum_list_nonneg) (auto simp: list_all_iff whole_number_def)
    have nD: "0 \<le> sum_list (map snd D)" using Cons.prems(1) by (rule whole_sum_nonneg)
    have nR: "0 \<le> sum_list (map snd R)" using Cons.prems(2) by (rule whole_sum_nonneg)
    have vd53: "vd < 2 ^ 53" using bd nsd nD by linarith
    have vr53: "vr < 2 ^ 53" using br nsr nR by linarith
    have ad: "attr_float_rounded attr dk = vd"
      unfolding vd_def using Some wvd vd53 unfolding vd_def by (rule attr_float_rounded_whole)
    have ar: "attr_float_rounded attr rk = vr"
      unfolding vr_def using Some wvr vr53 unfolding vr_def by (rule attr_float_rounded_whole)
    have ed: "attr_float attr dk = vd" unfolding vd_def using Some by (rule attr_float_attribute_number)
    have er: "attr_float attr rk = vr" unfolding vr_def using Some by (rule attr_float_attribute_number)
    have Dd: "dd_add_float D d vd = dd_add D d vd"
      using Cons.prems(1) wvd by (rule dd_add_float_whole) (use bd nsd in linarith)
    have Rd: "dd_add_float R d vr = dd_add R d vr"
      using Cons.prems(2) wvr by (rule dd_add_float_whole) (use br nsr in linarith)
    have b1: "sum_list (map snd (dd_add D d vd)) + sd < 2 ^ 53"
      using bd by (simp add: sum_snd_dd_add add.assoc)
    have b2: "sum_list (map snd (dd_add R d vr)) + sr < 2 ^ 53"
      using br by (simp add: sum_snd_dd_add add.assoc)
    note IH = Cons.IH[where D = "dd_add D d vd" and R = "dd_add R d vr"
        and T = "dd_add_float T d (fadd vd vr)" and T' = "dd_add T' d (vd + vr)"]
    from IH[OF dd_add_whole[OF Cons.prems(1) wvd] dd_add_whole[OF Cons.prems(2) wvr] wid wir] b1 b2
    show ?thesis using it Some
      by (simp add: Let_def ad ar ed er Dd Rd sd_def sr_def)
  qed
qed

lemma float_tallies_are_exact_tallies:
  assumes "whole_column g dem_key a" and "whole_column g rep_key a"
  shows "fst (aggregate_votes_by_district_float g a dem_key rep_key) =
           fst (aggregate_votes_by_district g a dem_key rep_key) \<and>
         fst (snd (aggregate_votes_by_district_float g a dem_key rep_key)) =
           fst (snd (aggregate_votes_by_district g a dem_key rep_key))"
  unfolding aggregate_votes_by_district_float_def aggregate_votes_by_district_def
  using assms by (intro aggregate_loop_float_exact) (simp_all add: whole_column_def)


subsection \<open>Contiguity\<close>

lemma plain_bfs_Nil: "plain_bfs G fuel seen [] = seen"
  by (cases fuel) simp_all

lemma set_neighbors: "set (neighbors G v) = edge_rel G `` {v}"
  by (auto simp: neighbors_def edge_rel_def split: if_splits)

lemma bfs_found:
  "set (remdups (filter (\<lambda>w. w \<notin> set seen) (concat (map (neighbors G) level))))
     = edge_rel G `` set level - set seen"
  by (auto simp: set_neighbors)

lemma plain_bfs_reach:
  assumes "finite V" "edge_rel G \<subseteq> V \<times> V"
    and "s \<in> set seen" "set level \<subseteq> set seen" "distinct seen" "set seen \<subseteq> V"
    and "set seen \<subseteq> (edge_rel G)\<^sup>* `` {s}"
    and "edge_rel G `` (set seen - set level) \<subseteq> set seen"
    and "card (V - set seen) \<le> fuel"
  shows "set (plain_bfs G fuel seen level) = (edge_rel G)\<^sup>* `` {s} \<and>
         distinct (plain_bfs G fuel seen level)"
  using assms(3-)
proof (induction fuel arbitrary: seen level)
  case 0
  have "V - set seen = {}" using "0.prems"(7) assms(1) by simp
  then have "set seen = V" using "0.prems"(4) by blast
  moreover have "(edge_rel G)\<^sup>* `` {s} \<subseteq> V"
  proof
    fix x assume "x \<in> (edge_rel G)\<^sup>* `` {s}"
    then have "(s, x) \<in> (edge_rel G)\<^sup>*" by simp
    then show "x \<in> V"
      using "0.prems"(1,4) assms(2) by (induction rule: rtrancl_induct) auto
  qed
  ultimately show ?case using "0.prems"(3,5) by auto
next
  case (Suc fuel)
  let ?E = "edge_rel G"
  define found where
    "found = remdups (filter (\<lambda>w. w \<notin> set seen) (concat (map (neighbors G) level)))"
  have closed_done: "?E `` set seen \<subseteq> set seen \<Longrightarrow> set seen = ?E\<^sup>* `` {s}"
  proof -
    assume c: "?E `` set seen \<subseteq> set seen"
    have "?E\<^sup>* `` set seen = set seen" using c by (rule Image_closed_trancl)
    moreover have "?E\<^sup>* `` {s} \<subseteq> ?E\<^sup>* `` set seen" using Suc.prems(1) by blast
    ultimately show "set seen = ?E\<^sup>* `` {s}" using Suc.prems(5) by blast
  qed
  show ?case
  proof (cases "level = []")
    case True
    then have "?E `` set seen \<subseteq> set seen" using Suc.prems(6) by simp
    from closed_done[OF this] True Suc.prems(3) show ?thesis by simp
  next
    case False
    have fs: "set found = ?E `` set level - set seen"
      unfolding found_def by (rule bfs_found)
    have step: "plain_bfs G (Suc fuel) seen level = plain_bfs G fuel (seen @ found) found"
      using False by (simp add: Let_def found_def)
    show ?thesis
    proof (cases "found = []")
      case True
      then have "?E `` set level \<subseteq> set seen" using fs by auto
      moreover have "?E `` set seen \<subseteq> ?E `` (set seen - set level) \<union> ?E `` set level" by blast
      ultimately have "?E `` set seen \<subseteq> set seen" using Suc.prems(6) by blast
      from closed_done[OF this] step True Suc.prems(3) show ?thesis
        by (simp add: plain_bfs_Nil)
    next
      case nonempty: False
      have 1: "s \<in> set (seen @ found)" using Suc.prems(1) by simp
      have 2: "set found \<subseteq> set (seen @ found)" by simp
      have "distinct found" unfolding found_def by simp
      then have 3: "distinct (seen @ found)" using Suc.prems(3) fs by auto
      have fV: "set found \<subseteq> V" using fs assms(2) by auto
      have 4: "set (seen @ found) \<subseteq> V" using Suc.prems(4) fV by simp
      have 5: "set (seen @ found) \<subseteq> ?E\<^sup>* `` {s}"
      proof -
        have "set found \<subseteq> ?E\<^sup>* `` {s}"
        proof
          fix w assume "w \<in> set found"
          then obtain v where v: "v \<in> set level" "(v, w) \<in> ?E" using fs by auto
          then have "(s, v) \<in> ?E\<^sup>*" using Suc.prems(2,5) by auto
          with v(2) show "w \<in> ?E\<^sup>* `` {s}" by (auto intro: rtrancl_into_rtrancl)
        qed
        then show ?thesis using Suc.prems(5) by simp
      qed
      have 6: "?E `` (set (seen @ found) - set found) \<subseteq> set (seen @ found)"
      proof -
        have "set (seen @ found) - set found \<subseteq> (set seen - set level) \<union> set level" by auto
        then have "?E `` (set (seen @ found) - set found)
                 \<subseteq> ?E `` (set seen - set level) \<union> ?E `` set level" by blast
        moreover have "?E `` set level \<subseteq> set seen \<union> set found" using fs by auto
        ultimately have "?E `` (set (seen @ found) - set found) \<subseteq> set seen \<union> set found"
          using Suc.prems(6) by blast
        then show ?thesis by simp
      qed
      have 7: "card (V - set (seen @ found)) \<le> fuel"
      proof -
        obtain w where w: "w \<in> set found" using nonempty by (cases found) auto
        then have "w \<in> V - set seen" "w \<notin> V - set (seen @ found)" using fV fs by auto
        then have "V - set (seen @ found) \<subset> V - set seen" by auto
        then have "card (V - set (seen @ found)) < card (V - set seen)"
          using assms(1) by (intro psubset_card_mono) auto
        then show ?thesis using Suc.prems(7) by linarith
      qed
      from Suc.IH[OF 1 2 3 4 5 6 7] step show ?thesis by simp
    qed
  qed
qed

lemma reach_in_nodes:
  assumes "E \<subseteq> V \<times> V" "s \<in> V"
  shows "E\<^sup>* `` {s} \<subseteq> V"
proof
  fix x assume "x \<in> E\<^sup>* `` {s}"
  then have "(s, x) \<in> E\<^sup>*" by simp
  then show "x \<in> V" using assms by (induction rule: rtrancl_induct) auto
qed

lemma is_connected_reach:
  assumes d: "distinct (node_list G)"
    and wf: "edge_rel G \<subseteq> set (node_list G) \<times> set (node_list G)"
    and ne: "node_attrs G = (s, a) # rest"
  shows "is_connected G = Inr (set (node_list G) \<subseteq> (edge_rel G)\<^sup>* `` {s})"
proof -
  let ?V = "set (node_list G)" and ?E = "edge_rel G"
  let ?B = "plain_bfs G (number_of_nodes G) [s] [s]"
  have sV: "s \<in> ?V" using ne by (simp add: node_list_def)
  have n: "number_of_nodes G = card ?V"
    using d distinct_card[of "node_list G"] by (simp add: number_of_nodes_def node_list_def)
  have fuel: "card (?V - set [s]) \<le> number_of_nodes G"
    unfolding n by (rule card_mono) auto
  have B: "set ?B = ?E\<^sup>* `` {s} \<and> distinct ?B"
    by (rule plain_bfs_reach[where V = ?V]) (use wf sV fuel in auto)
  have sub: "?E\<^sup>* `` {s} \<subseteq> ?V" by (rule reach_in_nodes[OF wf sV])
  have "length ?B = card (?E\<^sup>* `` {s})" using B distinct_card[of ?B] by simp
  then have "(length ?B = number_of_nodes G) = (card (?E\<^sup>* `` {s}) = card ?V)"
    using n by simp
  also have "\<dots> = (?E\<^sup>* `` {s} = ?V)"
    using card_subset_eq[OF _ sub] by auto
  also have "\<dots> = (?V \<subseteq> ?E\<^sup>* `` {s})" using sub by auto
  finally show ?thesis using ne by (simp add: is_connected_def)
qed

lemma sym_edge_rel: "sym (edge_rel G)"
  by (auto simp: sym_def edge_rel_def)

lemma all_pairs_from_root:
  assumes "sym E" "s \<in> V"
  shows "(V \<subseteq> E\<^sup>* `` {s}) = (\<forall>u \<in> V. \<forall>v \<in> V. (u, v) \<in> E\<^sup>*)"
proof
  assume r: "V \<subseteq> E\<^sup>* `` {s}"
  have symr: "sym (E\<^sup>*)" using assms(1) by (rule sym_rtrancl)
  show "\<forall>u \<in> V. \<forall>v \<in> V. (u, v) \<in> E\<^sup>*"
  proof (intro ballI)
    fix u v assume "u \<in> V" "v \<in> V"
    then have "(s, u) \<in> E\<^sup>*" "(s, v) \<in> E\<^sup>*" using r by auto
    then have "(u, s) \<in> E\<^sup>*" using symr by (auto dest: symD)
    with \<open>(s, v) \<in> E\<^sup>*\<close> show "(u, v) \<in> E\<^sup>*" by (meson rtrancl_trans)
  qed
next
  assume "\<forall>u \<in> V. \<forall>v \<in> V. (u, v) \<in> E\<^sup>*"
  then show "V \<subseteq> E\<^sup>* `` {s}" using assms(2) by auto
qed

lemma node_list_subgraph:
  "node_list (subgraph G ns) = filter (\<lambda>n. n \<in> set ns) (node_list G)"
  by (simp add: subgraph_def node_list_def Let_def filter_map comp_def case_prod_unfold)

lemma set_node_list_subgraph: "set (node_list (subgraph G ns)) = members G ns"
  by (auto simp: node_list_subgraph members_def)

lemma edge_rel_subgraph:
  "edge_rel (subgraph G ns) = edge_rel G \<inter> members G ns \<times> members G ns"
proof -
  have k: "fst ` set (filter (\<lambda>(n, a). n \<in> set ns) (node_attrs G)) = members G ns"
    by (auto simp: members_def node_list_def)
  have e: "edge_list (subgraph G ns)
         = filter (\<lambda>(a, b). a \<in> members G ns \<and> b \<in> members G ns) (edge_list G)"
    unfolding subgraph_def Let_def k by simp
  show ?thesis
    unfolding edge_rel_def e by auto
qed

lemma subgraph_connected:
  assumes d: "distinct (node_list G)" and ne: "number_of_nodes (subgraph G ns) \<noteq> 0"
  shows "is_connected (subgraph G ns) = Inr (single_component G (members G ns))"
proof -
  let ?S = "subgraph G ns" and ?M = "members G ns"
  from ne obtain s a rest where na: "node_attrs ?S = (s, a) # rest"
    by (cases "node_attrs ?S") (auto simp: number_of_nodes_def)
  have sM: "s \<in> ?M" using na set_node_list_subgraph[of G ns] by (auto simp: node_list_def)
  have dS: "distinct (node_list ?S)" using d by (simp add: node_list_subgraph)
  have wf: "edge_rel ?S \<subseteq> set (node_list ?S) \<times> set (node_list ?S)"
    by (simp add: edge_rel_subgraph set_node_list_subgraph)
  have sy: "sym (edge_rel G \<inter> ?M \<times> ?M)"
    using sym_edge_rel[of G] by (auto simp: sym_def)
  show ?thesis
    unfolding is_connected_reach[OF dS wf na] set_node_list_subgraph edge_rel_subgraph
      all_pairs_from_root[OF sy sM] single_component_def ..
qed

lemma subgraph_empty: "(number_of_nodes (subgraph G ns) = 0) = (members G ns = {})"
proof -
  have "(node_attrs (subgraph G ns) = []) = (set (node_list (subgraph G ns)) = {})"
    by (simp add: node_list_def)
  then show ?thesis by (simp add: number_of_nodes_def set_node_list_subgraph)
qed

lemma contiguous_loop_spec:
  assumes "distinct (node_list G)"
  shows "contiguous_loop G nss = Inr (\<forall>ns \<in> set nss. district_passes G ns)"
proof (induction nss)
  case Nil
  show ?case by simp
next
  case (Cons ns nss)
  show ?case
  proof (cases "number_of_nodes (subgraph G ns) = 0")
    case True
    then show ?thesis by (simp add: subgraph_empty district_passes_def)
  next
    case False
    from subgraph_connected[OF assms False] False Cons.IH show ?thesis
      by (auto simp: subgraph_empty district_passes_def Let_def)
  qed
qed

lemma component_paths_inside:
  assumes "(u, x) \<in> E\<^sup>*"
  shows "(u, x) \<in> (E \<inter> (E\<^sup>* `` {u}) \<times> (E\<^sup>* `` {u}))\<^sup>*"
  using assms
proof (induction rule: rtrancl_induct)
  case base
  show ?case by simp
next
  case (step y z)
  have "(u, z) \<in> E\<^sup>*" using step.hyps by (auto intro: rtrancl_into_rtrancl)
  then have "(y, z) \<in> E \<inter> (E\<^sup>* `` {u}) \<times> (E\<^sup>* `` {u})" using step.hyps by auto
  with step.IH show ?case by (rule rtrancl_into_rtrancl)
qed

lemma component_single:
  "single_component G ((edge_rel G)\<^sup>* `` {u})"
proof -
  let ?C = "(edge_rel G)\<^sup>* `` {u}"
  have sy: "sym (edge_rel G \<inter> ?C \<times> ?C)"
    using sym_edge_rel[of G] by (auto simp: sym_def)
  have uC: "u \<in> ?C" by simp
  have "?C \<subseteq> (edge_rel G \<inter> ?C \<times> ?C)\<^sup>* `` {u}"
    using component_paths_inside[of u _ "edge_rel G"] by auto
  then show ?thesis
    unfolding single_component_def all_pairs_from_root[OF sy uC, symmetric] .
qed

text \<open>
  C7. On every graph (its node identifiers pairwise different, as dictionary keys are) and
  every plan, \<open>is_partition_contiguous\<close> raises nothing and returns true if and only if
  every district's member set is non-empty and forms a single connected component of the
  subgraph it induces. In particular it returns false when some district holds two
  members with no path between them inside the district, and true when every district's
  member set is the vertex set of one connected component of the graph.
\<close>

theorem is_partition_contiguous_iff:
  assumes "distinct_nodes (pgraph p)"
  shows "is_partition_contiguous p = Inr (spec_contiguous p) \<and>
    ((\<exists>(d, ns) \<in> set (parts p). \<exists>u \<in> members (pgraph p) ns. \<exists>v \<in> members (pgraph p) ns.
        (u, v) \<notin> (edge_rel (pgraph p) \<inter> members (pgraph p) ns \<times> members (pgraph p) ns)\<^sup>*)
      \<longrightarrow> is_partition_contiguous p = Inr False) \<and>
    ((\<forall>(d, ns) \<in> set (parts p). \<exists>u \<in> members (pgraph p) ns.
        members (pgraph p) ns = (edge_rel (pgraph p))\<^sup>* `` {u})
      \<longrightarrow> is_partition_contiguous p = Inr True)"
proof -
  have "is_partition_contiguous p
      = Inr (\<forall>ns \<in> set (map snd (parts p)). district_passes (pgraph p) ns)"
    unfolding is_partition_contiguous_def
    using assms by (intro contiguous_loop_spec) (simp add: distinct_nodes_def)
  also have "(\<forall>ns \<in> set (map snd (parts p)). district_passes (pgraph p) ns) = spec_contiguous p"
    by (auto simp: spec_contiguous_def)
  finally have main: "is_partition_contiguous p = Inr (spec_contiguous p)" .
  have two: "(\<exists>(d, ns) \<in> set (parts p). \<exists>u \<in> members (pgraph p) ns. \<exists>v \<in> members (pgraph p) ns.
        (u, v) \<notin> (edge_rel (pgraph p) \<inter> members (pgraph p) ns \<times> members (pgraph p) ns)\<^sup>*)
      \<Longrightarrow> \<not> spec_contiguous p"
    unfolding spec_contiguous_def district_passes_def single_component_def by fast
  have one: "(\<forall>(d, ns) \<in> set (parts p). \<exists>u \<in> members (pgraph p) ns.
        members (pgraph p) ns = (edge_rel (pgraph p))\<^sup>* `` {u}) \<Longrightarrow> spec_contiguous p"
    unfolding spec_contiguous_def district_passes_def
  proof (intro ballI, clarify)
    fix d ns
    assume h: "\<forall>(d, ns) \<in> set (parts p). \<exists>u \<in> members (pgraph p) ns.
        members (pgraph p) ns = (edge_rel (pgraph p))\<^sup>* `` {u}"
      and m: "(d, ns) \<in> set (parts p)"
    from h m obtain u where u: "u \<in> members (pgraph p) ns"
      and c: "members (pgraph p) ns = (edge_rel (pgraph p))\<^sup>* `` {u}" by fast
    from u have "members (pgraph p) ns \<noteq> {}" by blast
    moreover have "single_component (pgraph p) (members (pgraph p) ns)"
      unfolding c by (rule component_single)
    ultimately show "members (pgraph p) ns \<noteq> {} \<and> single_component (pgraph p) (members (pgraph p) ns)"
      by simp
  qed
  from main one two show ?thesis by simp
qed

theorem is_partition_contiguous_iff_witness:
  "distinct_nodes (pgraph contiguous_plan) \<and>
   is_partition_contiguous contiguous_plan = Inr True \<and> spec_contiguous contiguous_plan \<and>
   distinct_nodes (pgraph split_plan) \<and>
   is_partition_contiguous split_plan = Inr False \<and> \<not> spec_contiguous split_plan"
proof -
  have d1: "distinct_nodes (pgraph contiguous_plan)"
    by (simp add: distinct_nodes_def node_list_def contiguous_plan_def path_graph_def)
  have d2: "distinct_nodes (pgraph split_plan)"
    by (simp add: distinct_nodes_def node_list_def split_plan_def path_graph_def)
  have e1: "is_partition_contiguous contiguous_plan = Inr True"
    by (simp add: is_partition_contiguous_def contiguous_plan_def path_graph_def parts_def
        subgraph_def number_of_nodes_def is_connected_def neighbors_def Let_def)
  have e2: "is_partition_contiguous split_plan = Inr False"
    by (simp add: is_partition_contiguous_def split_plan_def path_graph_def parts_def
        subgraph_def number_of_nodes_def is_connected_def neighbors_def Let_def)
  from is_partition_contiguous_iff[OF d1] is_partition_contiguous_iff[OF d2] d1 d2 e1 e2
  show ?thesis by simp
qed

subsection \<open>Writing plans and loading them back\<close>

lemma json_loads_open_brace: "json_loads ''{'' = Inl JSONDecodeError"
  by (simp add: json_loads_def skip_ws_def is_json_ws_def)

lemma strip_open_brace: "strip [CHR ''{'', LF] = ''{''"
  by (simp add: strip_def is_space_def ord_def LF_def)

lemma file_lines_open_brace: "file_lines (CHR ''{'' # LF # rest) = [CHR ''{'', LF] # file_lines rest"
  by (simp add: LF_def)

lemma dumps_object_starts:
  "kvs \<noteq> [] \<Longrightarrow> \<exists>rest. json_dumps_indent2 (JObj kvs) = CHR ''{'' # LF # rest"
  by (simp add: json_dumps_indent2_def newline_indent_def)

lemma foldl_append_plan:
  "foldl append_plan txt0 objs
     = txt0 @ concat (map (\<lambda>obj. json_dumps_indent2 obj @ [LF, LF]) objs)"
  by (induction objs arbitrary: txt0) (simp_all add: append_plan_def)

lemma load_after_open_brace:
  "load_ensemble_ndjson (CHR ''{'' # LF # rest) = Inl JSONDecodeError"
  unfolding load_ensemble_ndjson_def file_lines_open_brace
  by (simp add: strip_open_brace json_loads_open_brace)

text \<open>
  C2 fails on the code. The writer spreads each record over several lines
  (\<open>indent=2\<close>) and the loader parses line by line: whatever plans are written, starting
  from the empty file, the loader raises \<open>JSONDecodeError\<close> at the first line, which
  holds the opening brace alone. The round trip never returns the records written.
\<close>

theorem written_plans_do_not_load:
  "load_ensemble_ndjson
     (foldl append_plan [] (plan_obj c k contig gop eg state # later)) = Inl JSONDecodeError"
proof -
  obtain rest where r: "json_dumps_indent2 (plan_obj c k contig gop eg state)
      = CHR ''{'' # LF # rest"
    using dumps_object_starts[of "[(''meta'', m), (''index'', i), (''contiguous'', b),
        (''gop_seats'', s), (''efficiency_gap'', e), (''assignment'', a)]" for m i b s e a]
    unfolding plan_obj_def by blast
  show ?thesis
    unfolding foldl_append_plan by (simp add: r load_after_open_brace)
qed

lemma json_loads_one_line:
  "json_loads (dquote # ''index'' @ [dquote] @ '': 12'') = Inl JSONDecodeError"
  by (simp add: json_loads_def skip_ws_def is_json_ws_def dquote_def backslash_def ord_def)

lemma json_loads_compact_example:
  "json_loads (''{'' @ [dquote] @ ''index'' @ [dquote] @ '': 12, '' @ [dquote] @ ''contiguous''
       @ [dquote] @ '': true}'')
     = Inr (JObj [(''index'', JInt 12), (''contiguous'', JBool True)])"
  by (simp add: json_loads_def skip_ws_def is_json_ws_def dquote_def backslash_def ord_def
      parse_number_def is_digit_def nat_of_digits_def digit_val_def starts_with_def)

subsection \<open>The generation-time columns of a row\<close>

lemma digit_cases:
  assumes "d < (10::nat)"
  obtains "d = 0" | "d = 1" | "d = 2" | "d = 3" | "d = 4" | "d = 5" | "d = 6" | "d = 7"
    | "d = 8" | "d = 9"
proof -
  have "d = 0 \<or> d = 1 \<or> d = 2 \<or> d = 3 \<or> d = 4 \<or> d = 5 \<or> d = 6 \<or> d = 7 \<or> d = 8 \<or> d = 9"
    using assms by presburger
  then show thesis using that by blast
qed

lemma ord_digit_char: "d < 10 \<Longrightarrow> ord (digit_char d) = 48 + d"
  by (erule digit_cases) (simp_all add: ord_def digit_char_def)

lemma digit_val_digit_char: "d < 10 \<Longrightarrow> digit_val (digit_char d) = Some d"
  by (simp add: digit_val_def ord_digit_char)

lemma digit_char_not_space: "d < 10 \<Longrightarrow> \<not> is_space (digit_char d)"
  by (erule digit_cases) (simp_all add: is_space_def ord_def digit_char_def)

lemma digit_char_not_sign:
  "d < 10 \<Longrightarrow> digit_char d \<noteq> CHR ''-'' \<and> digit_char d \<noteq> CHR ''+''"
  by (erule digit_cases) (simp_all add: digit_char_def)

lemma digits_val_snoc:
  "digits_val acc (xs @ [c]) =
     (case digits_val acc xs of
        None \<Rightarrow> None
      | Some a \<Rightarrow> (case digit_val c of None \<Rightarrow> None | Some d \<Rightarrow> Some (10 * a + d)))"
  by (induction xs arbitrary: acc) (auto split: option.splits)

lemma digits_val_nat_digits: "digits_val 0 (nat_digits n) = Some n"
proof (induction n rule: nat_digits.induct)
  case (1 n)
  show ?case
  proof (cases "n < 10")
    case True
    then show ?thesis by (subst nat_digits.simps) (simp add: digit_val_digit_char)
  next
    case False
    have "n mod 10 < 10" by simp
    then have dv: "digit_val (digit_char (n mod 10)) = Some (n mod 10)"
      by (rule digit_val_digit_char)
    from False "1.IH" have "digits_val 0 (nat_digits (n div 10)) = Some (n div 10)" by simp
    with False dv show ?thesis
      by (subst nat_digits.simps) (simp add: digits_val_snoc)
  qed
qed

lemma nat_digits_shape:
  "nat_digits n \<noteq> [] \<and> \<not> is_space (hd (nat_digits n)) \<and> \<not> is_space (last (nat_digits n))
     \<and> hd (nat_digits n) \<noteq> CHR ''-'' \<and> hd (nat_digits n) \<noteq> CHR ''+''"
proof (induction n rule: nat_digits.induct)
  case (1 n)
  show ?case
  proof (cases "n < 10")
    case True
    then show ?thesis
      by (subst (1 2 3 4 5) nat_digits.simps)
         (simp add: digit_char_not_space digit_char_not_sign)
  next
    case False
    have m: "n mod 10 < 10" by simp
    from False "1.IH" have ih: "nat_digits (n div 10) \<noteq> []"
      "\<not> is_space (hd (nat_digits (n div 10)))"
      "hd (nat_digits (n div 10)) \<noteq> CHR ''-''" "hd (nat_digits (n div 10)) \<noteq> CHR ''+''"
      by simp_all
    have eq: "nat_digits n = nat_digits (n div 10) @ [digit_char (n mod 10)]"
      using False by (subst nat_digits.simps) simp
    show ?thesis unfolding eq using ih digit_char_not_space[OF m] by simp
  qed
qed

lemma strip_id:
  assumes "s \<noteq> []" "\<not> is_space (hd s)" "\<not> is_space (last s)"
  shows "strip s = s"
proof -
  have 1: "dropWhile is_space s = s" using assms(1,2) by (cases s) auto
  have "rev s \<noteq> []" "\<not> is_space (hd (rev s))" using assms(1,3) by (auto simp: hd_rev)
  then have 2: "dropWhile is_space (rev s) = rev s" by (cases "rev s") auto
  show ?thesis by (simp add: strip_def 1 2)
qed

lemma int_of_str_str_int: "int_of_str (str_int i) = Inr i"
proof (cases "i < 0")
  case True
  let ?ds = "nat_digits (nat (- i))"
  have sh: "?ds \<noteq> []" "\<not> is_space (last ?ds)" using nat_digits_shape[of "nat (- i)"] by auto
  have "strip (CHR ''-'' # ?ds) = CHR ''-'' # ?ds"
    using sh by (intro strip_id) (auto simp: is_space_def ord_def)
  then show ?thesis
    using True sh(1) by (simp add: int_of_str_def str_int_def nat_of_digits_def digits_val_nat_digits)
next
  case False
  let ?ds = "nat_digits (nat i)"
  have sh: "?ds \<noteq> []" "\<not> is_space (hd ?ds)" "\<not> is_space (last ?ds)"
    "hd ?ds \<noteq> CHR ''-''" "hd ?ds \<noteq> CHR ''+''"
    using nat_digits_shape[of "nat i"] by auto
  obtain c cs where cs: "?ds = c # cs" using sh(1) by (cases ?ds) auto
  have "strip ?ds = ?ds" using sh by (intro strip_id)
  moreover have "digits_val 0 ?ds = Some (nat i)" by (rule digits_val_nat_digits)
  ultimately show ?thesis
    using False sh cs by (simp add: int_of_str_def str_int_def nat_of_digits_def)
qed

lemma int_items_assignment:
  "\<exists>asg. int_items (map (\<lambda>(node, label). (str_int node, JInt label)) items) acc = Inr asg"
  by (induction items arbitrary: acc) (auto simp: int_of_str_str_int py_int_def)

lemma plan_assignment_plan_obj:
  "\<exists>asg. plan_assignment (plan_obj c k contig gop eg state) = Inr asg"
  using int_items_assignment[of "assignment state" "[]"]
  by (simp add: plan_assignment_def plan_obj_def assignment_dict_def)

text \<open>
  C9 fails on the code. Every record the generator writes carries its seat count under
  the key \<open>gop_seats\<close>; the analyzer reads the key \<open>rep_seats_won\<close>, which no record has.
  The analyzer's row for such a record exists, and its generation-time seat columns are
  both \<open>None\<close>, whereas the generation-time efficiency gap, read under the key the
  generator wrote, is there.
\<close>

theorem generated_seat_count_not_read:
  "plan_get (plan_obj c k contig gop eg state) ''gop_seats'' = Inr (JInt gop) \<and>
   plan_get (plan_obj c k contig gop eg state) ''rep_seats_won'' = Inr JNull \<and>
   (\<exists>row. analyze_plan g (plan_obj c k contig gop eg state) = Inr row \<and>
          rep_seats_generated row = JNull \<and> dem_seats_generated row = JNull \<and>
          efficiency_gap_generated row = JFloat eg)"
proof -
  let ?plan = "plan_obj c k contig gop eg state"
  have g1: "plan_get ?plan ''gop_seats'' = Inr (JInt gop)"
    by (simp add: plan_get_def plan_obj_def)
  have g2: "plan_get ?plan ''rep_seats_won'' = Inr JNull"
    by (simp add: plan_get_def plan_obj_def)
  have g3: "plan_get ?plan ''dem_seats_won'' = Inr JNull"
    by (simp add: plan_get_def plan_obj_def)
  have g4: "plan_get ?plan ''plan_index'' = Inr JNull"
    by (simp add: plan_get_def plan_obj_def)
  have g5: "plan_get ?plan ''num_districts'' = Inr JNull"
    by (simp add: plan_get_def plan_obj_def)
  have g6: "plan_get ?plan ''efficiency_gap'' = Inr (JFloat eg)"
    by (simp add: plan_get_def plan_obj_def)
  obtain asg where a: "plan_assignment ?plan = Inr asg"
    using plan_assignment_plan_obj by blast
  have "\<exists>row. analyze_plan g ?plan = Inr row \<and>
          rep_seats_generated row = JNull \<and> dem_seats_generated row = JNull \<and>
          efficiency_gap_generated row = JFloat eg"
    unfolding analyze_plan_def g2 g3 g4 g5 g6 a
    by (simp split: prod.splits)
  with g1 g2 show ?thesis by simp
qed

subsection \<open>The recorded and the recomputed seat count\<close>









subsection \<open>The sampling loop\<close>

subsection \<open>Counting candidate steps\<close>

lemma candidate_iff:
  assumes "0 \<le> sb"
  shows "(int i mod (sb + 1) = sb) = (Suc i mod (nat sb + 1) = 0)"
proof -
  define n where "n = nat sb + 1"
  have sb: "sb = int n - 1" and n: "0 < n" using assms by (simp_all add: n_def)
  have "int i mod (sb + 1) = int (i mod n)" by (simp add: sb zmod_int)
  then have "(int i mod (sb + 1) = sb) = (i mod n = n - 1)" using n sb by auto
  also have "\<dots> = (Suc i mod n = 0)" using n by (auto simp: mod_Suc)
  finally show ?thesis by (simp add: n_def)
qed

lemma count_every_nth:
  "0 < n \<Longrightarrow> length (filter (\<lambda>i. Suc i mod n = 0) [0..<N]) = N div n"
  by (induction N) (auto simp: div_Suc)

lemma every_nth_upt: "every_nth n [0..<N] = filter (\<lambda>i. Suc i mod n = 0) [0..<N]"
proof -
  have "map (\<lambda>i. [0..<N] ! i) (filter (\<lambda>i. Suc i mod n = 0) [0..<N])
      = map (\<lambda>i. i) (filter (\<lambda>i. Suc i mod n = 0) [0..<N])"
    by (rule map_cong) auto
  then show ?thesis by (simp add: every_nth_def)
qed

lemma candidates_filter:
  assumes "0 \<le> steps_between c"
  shows "filter (\<lambda>i. int i mod (steps_between c + 1) = steps_between c) [0..<N]
       = every_nth (nat (steps_between c) + 1) [0..<N]"
  unfolding every_nth_upt
  by (rule filter_cong) (simp_all add: candidate_iff[OF assms])

subsection \<open>Thinning\<close>

lemma pick_Nil: "pick n off [] = []"
  by (simp add: pick_def)

lemma pick_Cons:
  "pick n off (x # xs) = (if off mod n = 0 then [x] else []) @ pick n (Suc off) xs"
proof -
  have u: "[0..<length (x # xs)] = 0 # map Suc [0..<length xs]"
    by (simp add: upt_conv_Cons map_Suc_upt del: upt_Suc)
  show ?thesis
    unfolding pick_def u by (simp add: filter_map comp_def)
qed

lemma thinned_pick:
  assumes "0 \<le> burn_in c" "1 \<le> thin c"
  shows "thinned c (int s) cs
       = pick (nat (thin c)) (s - nat (burn_in c)) (drop (nat (burn_in c) - s) cs)"
proof (induction cs arbitrary: s)
  case Nil
  show ?case by (simp add: pick_Nil)
next
  case (Cons x xs)
  define b where "b = nat (burn_in c)"
  define t where "t = nat (thin c)"
  have bi: "burn_in c = int b" and ti: "thin c = int t" and t: "0 < t"
    using assms by (simp_all add: b_def t_def)
  have ih: "thinned c (int (Suc s)) xs = pick t (Suc s - b) (drop (b - Suc s) xs)"
    using Cons.IH[of "Suc s"] by (simp add: b_def t_def)
  have ih': "thinned c (int s + 1) xs = pick t (Suc s - b) (drop (b - Suc s) xs)"
    using ih by (simp add: add.commute)
  show ?case
  proof (cases "s < b")
    case True
    then have d: "drop (b - s) (x # xs) = drop (b - Suc s) xs"
      by (simp add: drop_Cons' Suc_diff_Suc)
    have o: "s - b = 0" "Suc s - b = 0" using True by simp_all
    have "int s + 1 \<le> burn_in c" using True bi by simp
    then show ?thesis
      using ih' d o by (simp add: b_def[symmetric] t_def[symmetric])
  next
    case False
    then have d: "b - s = 0" "b - Suc s = 0" by simp_all
    have nb: "\<not> int s + 1 \<le> burn_in c" using False bi by simp
    have "int s + 1 - burn_in c - 1 = int (s - b)" using False bi by simp
    then have m: "((int s + 1 - burn_in c - 1) mod thin c \<noteq> 0) = ((s - b) mod t \<noteq> 0)"
      by (simp add: ti zmod_int[symmetric] del: of_nat_diff)
    have su: "Suc s - b = Suc (s - b)" using False by simp
    show ?thesis
      using ih' nb m d su
      by (simp add: b_def[symmetric] t_def[symmetric] pick_Cons)
  qed
qed

lemma count_from_first:
  assumes "0 < t" "(S - 1) * t < L"
  shows "S \<le> length (filter (\<lambda>i. i mod t = 0) [0..<L])"
proof -
  have "length (filter (\<lambda>i. i mod t = 0) [0..<L]) = card {i. i < L \<and> i mod t = 0}"
    by (simp add: length_filter_conv_card cong: conj_cong)
  moreover have "card ((\<lambda>m. m * t) ` {..<S}) \<le> card {i. i < L \<and> i mod t = 0}"
  proof (rule card_mono)
    show "finite {i. i < L \<and> i mod t = 0}" by simp
    show "(\<lambda>m. m * t) ` {..<S} \<subseteq> {i. i < L \<and> i mod t = 0}"
    proof
      fix x assume "x \<in> (\<lambda>m. m * t) ` {..<S}"
      then obtain m where m: "m < S" "x = m * t" by auto
      then have "m \<le> S - 1" by simp
      then have "m * t \<le> (S - 1) * t" by (rule mult_le_mono1)
      then have "m * t < L" using assms(2) by (rule le_less_trans)
      then show "x \<in> {i. i < L \<and> i mod t = 0}" using m(2) by simp
    qed
  qed
  moreover have "card ((\<lambda>m. m * t) ` {..<S}) = S"
    using assms(1) by (subst card_image) (auto simp: inj_on_def)
  ultimately show ?thesis by simp
qed

lemma length_pick0: "length (pick t 0 xs) = length (filter (\<lambda>i. i mod t = 0) [0..<length xs])"
  by (simp add: pick_def)

lemma every_nth_from_first_pick: "every_nth_from_first t xs = pick t 0 xs"
  by (simp add: every_nth_from_first_def pick_def)

subsection \<open>The loop and the steps it keeps\<close>

lemma contiguous_loop_total: "\<exists>b. contiguous_loop G nss = Inr b"
proof (induction nss)
  case Nil
  show ?case by (rule exI[of _ True]) simp
next
  case (Cons ns nss)
  show ?case
  proof (cases "number_of_nodes (subgraph G ns) = 0")
    case True
    then show ?thesis by (intro exI[of _ False]) simp
  next
    case False
    then obtain x where "is_connected (subgraph G ns) = Inr x"
      by (cases "node_attrs (subgraph G ns)") (auto simp: is_connected_def number_of_nodes_def)
    with False Cons.IH show ?thesis by (auto simp: Let_def)
  qed
qed

lemma plan_record_ok:
  assumes "recordable c eg chain"
  shows "\<exists>obj. plan_record c eg k (chain i) = Inr obj"
proof -
  obtain b where b: "is_partition_contiguous (chain i) = Inr b"
    using contiguous_loop_total by (auto simp: is_partition_contiguous_def)
  from assms obtain gop e where "seats_gop_by_tally (DEM_KEY c) (REP_KEY c) (chain i) = Inr gop"
    "eg (chain i) = Inr e"
    unfolding recordable_def by blast
  with b show ?thesis by (simp add: plan_record_def)
qed

lemma records_text_Cons:
  "records_text (obj # objs) = json_dumps_indent2 obj @ [LF, LF] @ records_text objs"
  by (simp add: records_text_def)

lemma chain_loop_kept:
  assumes ok: "recordable c eg chain" and n0: "steps_between c + 1 \<noteq> 0" and t0: "thin c \<noteq> 0"
  shows "fst (chain_loop c eg chain xs st) = None \<and>
         content (snd (chain_loop c eg chain xs st))
           = content st @ records_text (records_from c eg chain (saved st)
                             (loop_kept c xs (saved_states_seen st) (saved st))) \<and>
         saved (snd (chain_loop c eg chain xs st))
           = saved st + int (length (loop_kept c xs (saved_states_seen st) (saved st)))"
proof (induction xs arbitrary: st)
  case Nil
  show ?case by (simp add: records_text_def)
next
  case (Cons step rest)
  let ?st1 = "st\<lparr>saved_states_seen := saved_states_seen st + 1\<rparr>"
  show ?case
  proof (cases "int step mod (steps_between c + 1) \<noteq> steps_between c")
    case True
    then show ?thesis using Cons.IH[of st] n0 by simp
  next
    case cand: False
    show ?thesis
    proof (cases "saved_states_seen st + 1 \<le> burn_in c")
      case True
      then show ?thesis using Cons.IH[of ?st1] n0 cand by (simp add: Let_def)
    next
      case past: False
      show ?thesis
      proof (cases "(saved_states_seen st + 1 - burn_in c - 1) mod thin c \<noteq> 0")
        case True
        then show ?thesis using Cons.IH[of ?st1] n0 t0 cand past by (simp add: Let_def)
      next
        case keep: False
        obtain obj where obj: "plan_record c eg (saved st) (chain step) = Inr obj"
          using plan_record_ok[OF ok] by blast
        let ?st2 = "?st1\<lparr>content := append_plan (content st) obj, saved := saved st + 1\<rparr>"
        show ?thesis
        proof (cases "saved st + 1 \<ge> samples c")
          case True
          then show ?thesis
            using n0 t0 cand past keep obj
            by (simp add: Let_def records_text_Cons append_plan_def records_text_def)
        next
          case False
          have step_eq: "chain_loop c eg chain (step # rest) st = chain_loop c eg chain rest ?st2"
            using n0 t0 cand past keep obj False by (simp add: Let_def)
          have kept_eq: "loop_kept c (step # rest) (saved_states_seen st) (saved st)
              = step # loop_kept c rest (saved_states_seen st + 1) (saved st + 1)"
            using cand past keep False by simp
          show ?thesis
            unfolding step_eq kept_eq using Cons.IH[of ?st2] obj
            by (simp add: records_text_Cons append_plan_def)
        qed
      qed
    qed
  qed
qed

lemma loop_kept_thinned:
  assumes "k < samples c"
  shows "loop_kept c xs seen k
       = take (nat (samples c - k))
           (thinned c seen (filter (\<lambda>i. int i mod (steps_between c + 1) = steps_between c) xs))"
  using assms
proof (induction xs arbitrary: seen k)
  case Nil
  show ?case by simp
next
  case (Cons step rest)
  show ?case
  proof (cases "int step mod (steps_between c + 1) = steps_between c")
    case False
    then show ?thesis using Cons.IH[OF Cons.prems] by simp
  next
    case cand: True
    show ?thesis
    proof (cases "seen + 1 \<le> burn_in c \<or> (seen + 1 - burn_in c - 1) mod thin c \<noteq> 0")
      case True
      then show ?thesis using cand Cons.IH[OF Cons.prems, of "seen + 1"] by auto
    next
      case keep: False
      have pos: "nat (samples c - k) = Suc (nat (samples c - (k + 1)))"
        using Cons.prems by simp
      show ?thesis
      proof (cases "k + 1 \<ge> samples c")
        case True
        then have "nat (samples c - (k + 1)) = 0" by simp
        then show ?thesis using cand keep True pos by simp
      next
        case False
        then have lt: "k + 1 < samples c" by simp
        show ?thesis using cand keep False pos Cons.IH[OF lt, of "seen + 1"] by simp
      qed
    qed
  qed
qed

lemma loop_kept_spec:
  assumes "0 \<le> steps_between c" "0 \<le> burn_in c" "1 \<le> thin c" "1 \<le> samples c"
  shows "loop_kept c [0..<nat (total_steps c)] 0 0 = kept_steps c"
proof -
  have "loop_kept c [0..<nat (total_steps c)] 0 0
      = take (nat (samples c)) (thinned c 0 (candidate_kept c))"
    using loop_kept_thinned[of 0 c "[0..<nat (total_steps c)]" 0] assms(4)
    by (simp add: candidates_filter[OF assms(1)] candidate_kept_def chain_steps_def)
  also have "thinned c 0 (candidate_kept c)
      = pick (nat (thin c)) 0 (drop (nat (burn_in c)) (candidate_kept c))"
    using thinned_pick[OF assms(2,3), of 0 "candidate_kept c"] by simp
  finally show ?thesis by (simp add: kept_steps_def every_nth_from_first_pick)
qed

lemma length_kept_steps:
  assumes "0 \<le> steps_between c" "0 \<le> burn_in c" "1 \<le> thin c" "1 \<le> samples c"
  shows "length (kept_steps c) = nat (samples c)"
proof -
  define n where "n = nat (steps_between c) + 1"
  define b where "b = nat (burn_in c)"
  define t where "t = nat (thin c)"
  define S where "S = nat (samples c)"
  define N where "N = nat (total_steps c)"
  have n: "0 < n" and t: "0 < t" and S: "0 < S" using assms by (simp_all add: n_def t_def S_def)
  have "total_steps c = int ((S + b) * n * t + 100)"
    using assms by (simp add: total_steps_def S_def b_def n_def t_def algebra_simps)
  then have "N = nat (int ((S + b) * n * t + 100))" by (simp only: N_def)
  then have N: "N = (S + b) * t * n + 100" by (simp only: nat_int mult_ac)
  have "(S + b) * t \<le> N div n"
  proof -
    have "(S + b) * t * n \<le> N" using N by simp
    then have "(S + b) * t * n div n \<le> N div n" by (rule div_le_mono)
    then show ?thesis using n by simp
  qed
  moreover have "length (candidate_kept c) = N div n"
    unfolding candidate_kept_def chain_steps_def n_def[symmetric] N_def[symmetric] every_nth_upt
    using n by (rule count_every_nth)
  ultimately have len: "(S + b) * t - b \<le> length (drop b (candidate_kept c))"
    by simp
  have "(S - 1) * t < (S + b) * t - b"
  proof -
    have "b \<le> b * t" using t by simp
    moreover have "(S + b) * t = S * t + b * t" by (rule add_mult_distrib)
    ultimately have "S * t \<le> (S + b) * t - b" by linarith
    moreover have "(S - 1) * t < S * t" using S t by simp
    ultimately show ?thesis by linarith
  qed
  then have "(S - 1) * t < length (drop b (candidate_kept c))" using len by linarith
  from count_from_first[OF t this]
  have "S \<le> length (every_nth_from_first t (drop b (candidate_kept c)))"
    by (simp add: every_nth_from_first_pick length_pick0)
  then show ?thesis
    by (simp add: kept_steps_def S_def[symmetric] b_def[symmetric] t_def[symmetric])
qed

lemma stream_cadence_result:
  assumes "0 \<le> steps_between c" "0 \<le> burn_in c" "1 \<le> thin c" "1 \<le> samples c"
    and "recordable c eg chain"
  shows "stream_plans_ndjson c eg chain old_file =
           \<lparr>outcome = Returned JNull, stream_saved = Some (samples c),
            out_file = Some (records_text (records_from c eg chain 0 (kept_steps c)))\<rparr> \<and>
         length (kept_steps c) = nat (samples c) \<and>
         total_steps c = (samples c + burn_in c) * (steps_between c + 1) * thin c + 100"
proof -
  let ?st0 = "\<lparr>saved = 0, saved_states_seen = 0, content = []\<rparr>"
  let ?r = "chain_loop c eg chain [0..<nat (total_steps c)] ?st0"
  have n0: "steps_between c + 1 \<noteq> 0" and t0: "thin c \<noteq> 0" using assms(1,3) by simp_all
  from chain_loop_kept[OF assms(5) n0 t0, of "[0..<nat (total_steps c)]" ?st0]
  have 1: "fst ?r = None"
    and 2: "content (snd ?r) = records_text (records_from c eg chain 0 (kept_steps c))"
    and 3: "saved (snd ?r) = int (length (kept_steps c))"
    by (simp_all add: loop_kept_spec[OF assms(1-4)])
  have len: "length (kept_steps c) = nat (samples c)" by (rule length_kept_steps[OF assms(1-4)])
  obtain e st where r: "?r = (e, st)" by (cases ?r)
  with 1 2 3 len assms(4) show ?thesis
    by (simp add: stream_plans_ndjson_def chain_steps_def total_steps_def)
qed

subsection \<open>A zero thinning interval\<close>

lemma chain_loop_thin_zero_state:
  assumes "thin c = 0"
  shows "content (snd (chain_loop c eg chain xs st)) = content st \<and>
         saved (snd (chain_loop c eg chain xs st)) = saved st"
proof (induction xs arbitrary: st)
  case Nil
  show ?case by simp
next
  case (Cons step rest)
  let ?st1 = "st\<lparr>saved_states_seen := saved_states_seen st + 1\<rparr>"
  from Cons.IH[of st] Cons.IH[of ?st1] assms show ?case by (simp add: Let_def)
qed

lemma chain_loop_thin_zero_outcome:
  assumes "thin c = 0" "steps_between c + 1 \<noteq> 0" "saved_states_seen st \<le> burn_in c"
  shows "fst (chain_loop c eg chain xs st) =
           (if burn_in c < saved_states_seen st
                + int (length (filter (\<lambda>i. int i mod (steps_between c + 1) = steps_between c) xs))
            then Some ZeroDivisionError else None)"
  using assms(3)
proof (induction xs arbitrary: st)
  case Nil
  then show ?case by simp
next
  case (Cons step rest)
  let ?st1 = "st\<lparr>saved_states_seen := saved_states_seen st + 1\<rparr>"
  show ?case
  proof (cases "int step mod (steps_between c + 1) = steps_between c")
    case False
    then show ?thesis using Cons.IH[OF Cons.prems] assms(2) by simp
  next
    case cand: True
    show ?thesis
    proof (cases "saved_states_seen st + 1 \<le> burn_in c")
      case True
      then have "saved_states_seen ?st1 \<le> burn_in c" by simp
      from Cons.IH[OF this] True cand assms(2) show ?thesis by (simp add: Let_def add.assoc)
    next
      case False
      then show ?thesis using cand assms(1,2) by (simp add: Let_def)
    qed
  qed
qed

lemma thin_zero_result:
  assumes "thin c = 0" "0 \<le> steps_between c" "0 \<le> burn_in c"
  shows "out_file (stream_plans_ndjson c eg chain old_file) = Some [] \<and>
    (if (burn_in c + 1) * (steps_between c + 1) \<le> 100
     then outcome (stream_plans_ndjson c eg chain old_file) = Raised ZeroDivisionError \<and>
          stream_saved (stream_plans_ndjson c eg chain old_file) = None
     else outcome (stream_plans_ndjson c eg chain old_file) = Returned JNull \<and>
          stream_saved (stream_plans_ndjson c eg chain old_file) = Some 0)"
proof -
  let ?st0 = "\<lparr>saved = 0, saved_states_seen = 0, content = []\<rparr>"
  define n where "n = nat (steps_between c) + 1"
  define b where "b = nat (burn_in c)"
  have n: "0 < n" and sb: "steps_between c + 1 = int n" and bi: "burn_in c = int b"
    using assms(2,3) by (simp_all add: n_def b_def)
  have ts: "nat (total_steps c) = 100" using assms(1) by (simp add: total_steps_def)
  let ?r = "chain_loop c eg chain [0..<100] ?st0"
  have cnt: "length (filter (\<lambda>i. int i mod (steps_between c + 1) = steps_between c) [0..<100])
           = 100 div n"
    unfolding candidates_filter[OF assms(2)] every_nth_upt n_def[symmetric]
    using n by (rule count_every_nth)
  have n0: "steps_between c + 1 \<noteq> 0" using assms(2) by simp
  have o: "fst ?r = (if burn_in c < int (100 div n) then Some ZeroDivisionError else None)"
    using chain_loop_thin_zero_outcome[OF assms(1) n0, of ?st0 eg chain "[0..<100]"] assms(3)
    by (simp add: cnt)
  have "(burn_in c < int (100 div n)) = (Suc b \<le> 100 div n)" using bi by auto
  also have "\<dots> = (Suc b * n \<le> 100)" using n by (simp add: less_eq_div_iff_mult_less_eq)
  also have "\<dots> = ((burn_in c + 1) * (steps_between c + 1) \<le> 100)"
  proof -
    have "(burn_in c + 1) * (steps_between c + 1) = int (Suc b * n)"
      unfolding sb bi by (simp add: algebra_simps)
    then show ?thesis by (simp only: of_nat_le_iff[symmetric, where ?'a = int]) simp
  qed
  finally have cond: "(burn_in c < int (100 div n))
      = ((burn_in c + 1) * (steps_between c + 1) \<le> 100)" .
  have st: "content (snd ?r) = []" "saved (snd ?r) = 0"
    using chain_loop_thin_zero_state[OF assms(1), of eg chain "[0..<100]" ?st0] by simp_all
  obtain e s where r: "?r = (e, s)" by (cases ?r)
  show ?thesis
    using o st r cond by (auto simp: stream_plans_ndjson_def chain_steps_def ts)
qed

subsection \<open>What a call returns\<close>

lemma chain_loop_records:
  "\<exists>objs. content (snd (chain_loop c eg chain xs st)) = content st @ records_text objs \<and>
          saved (snd (chain_loop c eg chain xs st)) = saved st + int (length objs)"
proof (induction xs arbitrary: st)
  case Nil
  show ?case by (rule exI[of _ "[]"]) (simp add: records_text_def)
next
  case (Cons step rest)
  let ?st1 = "st\<lparr>saved_states_seen := saved_states_seen st + 1\<rparr>"
  have same: "\<And>s. content s = content st \<Longrightarrow> saved s = saved st \<Longrightarrow>
      \<exists>objs. content (snd (chain_loop c eg chain rest s)) = content st @ records_text objs \<and>
          saved (snd (chain_loop c eg chain rest s)) = saved st + int (length objs)"
    using Cons.IH by metis
  have stop: "\<And>s. content s = content st \<Longrightarrow> saved s = saved st \<Longrightarrow>
      \<exists>objs. content s = content st @ records_text objs \<and> saved s = saved st + int (length objs)"
    by (intro exI[of _ "[]"]) (simp add: records_text_def)
  show ?case
  proof (cases "steps_between c + 1 = 0")
    case True
    then show ?thesis using stop[of st] by simp
  next
    case n0: False
    show ?thesis
    proof (cases "int step mod (steps_between c + 1) \<noteq> steps_between c")
      case True
      then show ?thesis using same[of st] n0 by simp
    next
      case cand: False
      show ?thesis
      proof (cases "saved_states_seen st + 1 \<le> burn_in c")
        case True
        then show ?thesis using same[of ?st1] n0 cand by (simp add: Let_def)
      next
        case past: False
        show ?thesis
        proof (cases "thin c = 0")
          case True
          then show ?thesis using stop[of ?st1] n0 cand past by (simp add: Let_def)
        next
          case t0: False
          show ?thesis
          proof (cases "(saved_states_seen st + 1 - burn_in c - 1) mod thin c \<noteq> 0")
            case True
            then show ?thesis using same[of ?st1] n0 cand past t0 by (simp add: Let_def)
          next
            case keep: False
            show ?thesis
            proof (cases "plan_record c eg (saved st) (chain step)")
              case (Inl e)
              then show ?thesis using stop[of ?st1] n0 cand past t0 keep by (simp add: Let_def)
            next
              case (Inr obj)
              let ?st2 = "?st1\<lparr>content := append_plan (content st) obj, saved := saved st + 1\<rparr>"
              from Cons.IH[of ?st2] obtain objs where
                o: "content (snd (chain_loop c eg chain rest ?st2))
                      = content ?st2 @ records_text objs"
                   "saved (snd (chain_loop c eg chain rest ?st2)) = saved ?st2 + int (length objs)"
                by blast
              show ?thesis
              proof (cases "saved st + 1 \<ge> samples c")
                case True
                have "chain_loop c eg chain (step # rest) st = (None, ?st2)"
                  using n0 cand past t0 keep Inr True by (simp add: Let_def)
                then show ?thesis
                  by (intro exI[of _ "[obj]"]) (simp add: append_plan_def records_text_def)
              next
                case False
                have "chain_loop c eg chain (step # rest) st = chain_loop c eg chain rest ?st2"
                  using n0 cand past t0 keep Inr False by (simp add: Let_def)
                then show ?thesis using o
                  by (intro exI[of _ "obj # objs"])
                     (simp add: append_plan_def records_text_Cons)
              qed
            qed
          qed
        qed
      qed
    qed
  qed
qed

lemma stream_returns:
  assumes "outcome (stream_plans_ndjson c eg chain old_file) = Returned v"
  shows "v = JNull \<and>
         (\<exists>objs. stream_saved (stream_plans_ndjson c eg chain old_file) = Some (int (length objs)) \<and>
                 out_file (stream_plans_ndjson c eg chain old_file) = Some (records_text objs))"
proof -
  let ?st0 = "\<lparr>saved = 0, saved_states_seen = 0, content = []\<rparr>"
  let ?r = "chain_loop c eg chain [0..<nat (total_steps c)] ?st0"
  obtain e st where r: "?r = (e, st)" by (cases ?r)
  from chain_loop_records[of c eg chain "[0..<nat (total_steps c)]" ?st0] r
  obtain objs where o: "content st = records_text objs" "saved st = int (length objs)"
    by auto
  from assms r have e: "e = None" and v: "v = JNull"
    by (auto simp: stream_plans_ndjson_def chain_steps_def split: option.splits)
  show ?thesis
    using r e v o by (auto simp: stream_plans_ndjson_def chain_steps_def)
qed

subsection \<open>Concrete runs\<close>

lemma still_seats: "seats_gop_by_tally ''PREDEM24'' ''PREREP24'' contiguous_plan = Inr 0"
  by (simp add: seats_gop_by_tally_def Tally_def parts_def node_number_def contiguous_plan_def
      path_graph_def)

lemma still_recordable: "recordable (cli_config a b x y) zero_gap still_chain"
  by (simp add: recordable_def cli_config_def zero_gap_def still_chain_def still_seats)

lemma full_run_one_sample:
  "stream_saved (stream_plans_ndjson (cli_config 1 0 0 1) zero_gap still_chain f) = Some 1 \<and>
   outcome (stream_plans_ndjson (cli_config 1 0 0 1) zero_gap still_chain f) = Returned JNull"
proof -
  have "0 \<le> steps_between (cli_config 1 0 0 1)" "0 \<le> burn_in (cli_config 1 0 0 1)"
    "1 \<le> thin (cli_config 1 0 0 1)" "1 \<le> samples (cli_config 1 0 0 1)"
    by (simp_all add: cli_config_def)
  from stream_cadence_result[OF this still_recordable, of f]
  show ?thesis by (simp add: cli_config_def)
qed

lemma thin_zero_default_cadence:
  "stream_plans_ndjson (cli_config 10 100 0 0) eg chain f
     = \<lparr>outcome = Returned JNull, stream_saved = Some 0, out_file = Some []\<rparr>"
proof -
  have "thin (cli_config 10 100 0 0) = 0" "0 \<le> steps_between (cli_config 10 100 0 0)"
    "0 \<le> burn_in (cli_config 10 100 0 0)"
    by (simp_all add: cli_config_def)
  from thin_zero_result[OF this, of eg chain f]
  show ?thesis
    by (cases "stream_plans_ndjson (cli_config 10 100 0 0) eg chain f")
       (simp add: cli_config_def)
qed

lemma thin_zero_every_step:
  "stream_plans_ndjson (cli_config 10 0 0 0) eg chain f
     = \<lparr>outcome = Raised ZeroDivisionError, stream_saved = None, out_file = Some []\<rparr>"
proof -
  have "thin (cli_config 10 0 0 0) = 0" "0 \<le> steps_between (cli_config 10 0 0 0)"
    "0 \<le> burn_in (cli_config 10 0 0 0)"
    by (simp_all add: cli_config_def)
  from thin_zero_result[OF this, of eg chain f]
  show ?thesis
    by (cases "stream_plans_ndjson (cli_config 10 0 0 0) eg chain f")
       (simp add: cli_config_def)
qed

lemma zero_samples_run:
  "stream_saved (stream_plans_ndjson (cli_config 0 0 0 1) zero_gap still_chain f) = Some 1"
proof -
  let ?c = "cli_config 0 0 0 1"
  obtain obj where obj: "plan_record ?c zero_gap 0 (still_chain 0) = Inr obj"
    using plan_record_ok[OF still_recordable] by blast
  have u: "[0..<nat (total_steps ?c)] = 0 # [1..<100]"
    by (simp add: total_steps_def cli_config_def upt_conv_Cons)
  have "chain_loop ?c zero_gap still_chain (0 # [1..<100])
          \<lparr>saved = 0, saved_states_seen = 0, content = []\<rparr>
      = (None, \<lparr>saved = 1, saved_states_seen = 1, content = append_plan [] obj\<rparr>)"
    using obj by (simp add: cli_config_def Let_def)
  then show ?thesis by (simp add: stream_plans_ndjson_def chain_steps_def u)
qed

subsection \<open>Properties of the sampler\<close>

text \<open>
  C6 (amended). For \<open>samples\<close> at least one, \<open>thin\<close> at least one, \<open>steps_between\<close> and
  \<open>burn_in\<close> not negative, and a chain whose states can all be recorded, a run of
  \<open>stream_plans_ndjson\<close> ends normally having written exactly the records of the steps
  \<open>kept_steps\<close>, in order and numbered from one: of the accepted steps every
  \<open>(steps_between + 1)\<close>-th is candidate-kept, the first \<open>burn_in\<close> candidates are
  discarded, of the remaining ones every \<open>thin\<close>-th is recorded beginning with the first,
  and recording stops with the \<open>samples\<close>-th record, which the ceiling
  \<open>(samples + burn_in) * (steps_between + 1) * thin + 100\<close> always lets the run reach.
\<close>

theorem recording_cadence:
  assumes "0 \<le> steps_between c" "0 \<le> burn_in c" "1 \<le> thin c" "1 \<le> samples c"
    and "recordable c eg chain"
  shows "stream_plans_ndjson c eg chain old_file =
           \<lparr>outcome = Returned JNull, stream_saved = Some (samples c),
            out_file = Some (records_text (records_from c eg chain 0 (kept_steps c)))\<rparr> \<and>
         length (kept_steps c) = nat (samples c) \<and>
         total_steps c = (samples c + burn_in c) * (steps_between c + 1) * thin c + 100"
  using assms by (rule stream_cadence_result)

theorem recording_cadence_witness:
  "0 \<le> steps_between (cli_config 3 2 1 2) \<and> 0 \<le> burn_in (cli_config 3 2 1 2) \<and>
   1 \<le> thin (cli_config 3 2 1 2) \<and> 1 \<le> samples (cli_config 3 2 1 2) \<and>
   recordable (cli_config 3 2 1 2) zero_gap still_chain \<and>
   stream_saved (stream_plans_ndjson (cli_config 3 2 1 2) zero_gap still_chain None) = Some 3 \<and>
   kept_steps (cli_config 3 2 1 2) = [5, 11, 17]"
proof -
  have h: "0 \<le> steps_between (cli_config 3 2 1 2)" "0 \<le> burn_in (cli_config 3 2 1 2)"
    "1 \<le> thin (cli_config 3 2 1 2)" "1 \<le> samples (cli_config 3 2 1 2)"
    by (simp_all add: cli_config_def)
  have k: "kept_steps (cli_config 3 2 1 2) = [5, 11, 17]"
    by code_simp
  from recording_cadence[OF h still_recordable, of None] h k still_recordable
  show ?thesis by (simp add: cli_config_def)
qed

text \<open>
  C6 as stated fails for \<open>samples = 0\<close>: the loop compares the number saved with \<open>samples\<close>
  only after writing a record, so one record is written where none is requested.
\<close>

theorem recording_cadence_counterexample:
  "samples (cli_config 0 0 0 1) = 0 \<and> kept_steps (cli_config 0 0 0 1) = [] \<and>
   stream_saved (stream_plans_ndjson (cli_config 0 0 0 1) zero_gap still_chain None) = Some 1"
  using zero_samples_run[of None] by (simp add: kept_steps_def cli_config_def)

text \<open>
  C3 (amended). With \<open>thin = 0\<close> (and \<open>steps_between\<close>, \<open>burn_in\<close> not negative) nothing is
  checked before the loop. The output file is emptied first, whatever it held. The chain
  then has 100 steps: if the first candidate-kept step past burn-in lies among them, the
  loop raises \<open>ZeroDivisionError\<close> there; otherwise the call ends normally with no plan
  saved. No record is written in either case.
\<close>

theorem thin_zero_not_validated:
  assumes "thin c = 0" "0 \<le> steps_between c" "0 \<le> burn_in c"
  shows "out_file (stream_plans_ndjson c eg chain old_file) = Some [] \<and>
    (if (burn_in c + 1) * (steps_between c + 1) \<le> 100
     then outcome (stream_plans_ndjson c eg chain old_file) = Raised ZeroDivisionError \<and>
          stream_saved (stream_plans_ndjson c eg chain old_file) = None
     else outcome (stream_plans_ndjson c eg chain old_file) = Returned JNull \<and>
          stream_saved (stream_plans_ndjson c eg chain old_file) = Some 0)"
  using assms by (rule thin_zero_result)

theorem thin_zero_not_validated_witness:
  "thin (cli_config 10 4 2 0) = 0 \<and> 0 \<le> steps_between (cli_config 10 4 2 0) \<and>
   0 \<le> burn_in (cli_config 10 4 2 0) \<and>
   out_file (stream_plans_ndjson (cli_config 10 4 2 0) zero_gap still_chain (Some ''earlier plans''))
     = Some [] \<and>
   outcome (stream_plans_ndjson (cli_config 10 4 2 0) zero_gap still_chain (Some ''earlier plans''))
     = Raised ZeroDivisionError"
proof -
  have h: "thin (cli_config 10 4 2 0) = 0" "0 \<le> steps_between (cli_config 10 4 2 0)"
    "0 \<le> burn_in (cli_config 10 4 2 0)"
    by (simp_all add: cli_config_def)
  from thin_zero_not_validated[OF h, of zero_gap still_chain "Some ''earlier plans''"] h
  show ?thesis by (simp add: cli_config_def)
qed

text \<open>
  C3 as stated fails: with the cadence the command line fixes (\<open>steps_between = 100\<close>)
  and \<open>thin = 0\<close> the call raises nothing at all and empties the file; with
  \<open>steps_between = 0\<close> it raises inside the loop, at the first step, after emptying the
  file.
\<close>

theorem thin_zero_counterexample:
  "stream_plans_ndjson (cli_config 10 100 0 0) zero_gap still_chain (Some ''earlier plans'')
     = \<lparr>outcome = Returned JNull, stream_saved = Some 0, out_file = Some []\<rparr> \<and>
   stream_plans_ndjson (cli_config 10 0 0 0) zero_gap still_chain (Some ''earlier plans'')
     = \<lparr>outcome = Raised ZeroDivisionError, stream_saved = None, out_file = Some []\<rparr>"
  using thin_zero_default_cadence thin_zero_every_step by simp

text \<open>
  C4 (amended). Whenever a call of \<open>stream_plans_ndjson\<close> ends without an exception,
  whether it reached \<open>samples\<close> records or the chain ran out first, it returns \<open>None\<close>; the
  number in its final message is the number of records written, and the file holds
  exactly those records. The number requested is no part of what it returns.
\<close>

theorem shortfall_returns_none:
  assumes "outcome (stream_plans_ndjson c eg chain old_file) = Returned v"
  shows "v = JNull \<and>
         (\<exists>objs. stream_saved (stream_plans_ndjson c eg chain old_file) = Some (int (length objs)) \<and>
                 out_file (stream_plans_ndjson c eg chain old_file) = Some (records_text objs))"
  using assms by (rule stream_returns)

theorem shortfall_returns_none_witness:
  "outcome (stream_plans_ndjson (cli_config 10 100 0 0) zero_gap still_chain None)
     = Returned JNull \<and>
   stream_saved (stream_plans_ndjson (cli_config 10 100 0 0) zero_gap still_chain None) = Some 0 \<and>
   out_file (stream_plans_ndjson (cli_config 10 100 0 0) zero_gap still_chain None) = Some []"
proof -
  let ?r = "stream_plans_ndjson (cli_config 10 100 0 0) zero_gap still_chain None"
  have r: "?r = \<lparr>outcome = Returned JNull, stream_saved = Some 0, out_file = Some []\<rparr>"
    by (rule thin_zero_default_cadence)
  then have o: "outcome ?r = Returned JNull" by simp
  from shortfall_returns_none[OF o] r show ?thesis by simp
qed

text \<open>
  C4 as stated fails: a run asked for ten samples whose chain ends before any is due
  returns \<open>None\<close> with nothing saved, the same value a run returns that saved every plan
  it was asked for.
\<close>

theorem shortfall_counterexample:
  "samples (cli_config 10 100 0 0) = 10 \<and>
   stream_saved (stream_plans_ndjson (cli_config 10 100 0 0) zero_gap still_chain None) = Some 0 \<and>
   outcome (stream_plans_ndjson (cli_config 10 100 0 0) zero_gap still_chain None)
     = Returned JNull \<and>
   stream_saved (stream_plans_ndjson (cli_config 1 0 0 1) zero_gap still_chain None) = Some 1 \<and>
   outcome (stream_plans_ndjson (cli_config 1 0 0 1) zero_gap still_chain None)
     = outcome (stream_plans_ndjson (cli_config 10 100 0 0) zero_gap still_chain None)"
  using thin_zero_default_cadence[of zero_gap still_chain None] full_run_one_sample[of None]
  by (simp add: cli_config_def)


end
